theory Spec2Isabelle
  imports Complex_Main "HOL-Library.Log_Nat" "HOL-Library.Multiset" "HOL-Library.AList"
    "HOL-Library.Char_ord" "HOL-Library.List_Lexorder"
begin

section \<open>Python values\<close>

subsection \<open>Floats\<close>

text \<open>
  A Python \<open>float\<close> is an IEEE-754 binary64 number. Its finite values are rationals, and
  every arithmetic operation returns the exact result rounded to the nearest representable
  value, ties to the even significand. \<open>float_round\<close> is that rounding: the significand has
  53 bits, the exponent of the last place is at least \<open>-1074\<close> (subnormal numbers). The
  exponent range is not bounded above: overflow to infinity, infinities and NaN are outside
  this model. Integers are embedded in the rationals; integer arithmetic is exact.
\<close>

definition ilog2 :: "rat \<Rightarrow> int" where
  \<comment> \<open>\<open>\<lfloor>log\<^sub>2 x\<rfloor>\<close> for \<open>0 < x\<close>\<close>
  "ilog2 x = (let (p, d) = quotient_of x; k = bitlen p - bitlen d
              in if power_int 2 k \<le> x then k else k - 1)"

definition round_half_even :: "rat \<Rightarrow> int" where
  "round_half_even q = (let f = \<lfloor>q\<rfloor>; r = q - of_int f in
     if r < 1 / 2 then f else if 1 / 2 < r then f + 1 else if even f then f else f + 1)"

definition round_pos :: "rat \<Rightarrow> rat" where
  "round_pos x = (let e = max (ilog2 x - 52) (- 1074)
                  in of_int (round_half_even (x / power_int 2 e)) * power_int 2 e)"

definition float_round :: "rat \<Rightarrow> rat" where
  "float_round x = (if x = 0 then 0 else if 0 < x then round_pos x else - round_pos (- x))"

definition is_float :: "rat \<Rightarrow> bool" where
  "is_float x \<longleftrightarrow> float_round x = x"

definition fadd :: "rat \<Rightarrow> rat \<Rightarrow> rat" where
  "fadd x y = float_round (x + y)"

definition fsub :: "rat \<Rightarrow> rat \<Rightarrow> rat" where
  "fsub x y = float_round (x - y)"

definition fmul :: "rat \<Rightarrow> rat \<Rightarrow> rat" where
  "fmul x y = float_round (x * y)"

definition fdiv :: "rat \<Rightarrow> rat \<Rightarrow> rat" where
  "fdiv x y = float_round (x / y)"

datatype py_error = ZeroDivisionError | StatisticsError | OperationalError

definition truediv :: "rat \<Rightarrow> rat \<Rightarrow> py_error + rat" where
  \<comment> \<open>the operator \<open>/\<close>\<close>
  "truediv x y = (if y = 0 then Inl ZeroDivisionError else Inr (fdiv x y))"

definition int_to_float :: "int \<Rightarrow> rat" where
  \<comment> \<open>the conversion of an integer operand that meets a float\<close>
  "int_to_float i = float_round (of_int i)"

text \<open>
  The built-in \<open>sum\<close> depends on the interpreter. Up to CPython 3.11 it adds the items
  from left to right, starting from the integer 0. From CPython 3.12 on it adds floats
  with Neumaier's compensation: the first float is added to the integer 0, every later
  float \<open>x\<close> is added to the running total \<open>f\<close> while the rounding error of that addition
  is added to a compensation \<open>c\<close>, and a compensation other than 0 is added to the total
  at the end. The algorithm is an argument of every function that calls \<open>sum\<close>.
\<close>

datatype sum_algorithm = Sequential | Compensated

fun neumaier :: "rat \<Rightarrow> rat \<Rightarrow> rat list \<Rightarrow> rat" where
  "neumaier f c [] = (if c \<noteq> 0 then fadd f c else f)"
| "neumaier f c (x # xs) =
     (let t = fadd f x
      in neumaier t
           (fadd c (if \<bar>f\<bar> \<ge> \<bar>x\<bar> then fadd (fsub f t) x else fadd (fsub x t) f)) xs)"

definition py_sum :: "sum_algorithm \<Rightarrow> rat list \<Rightarrow> rat" where
  "py_sum alg xs =
     (case alg of
        Sequential \<Rightarrow> foldl fadd 0 xs
      | Compensated \<Rightarrow> (case xs of [] \<Rightarrow> 0 | x # rest \<Rightarrow> neumaier (fadd 0 x) 0 rest))"

definition mean :: "rat list \<Rightarrow> py_error + rat" where
  \<comment> \<open>\<open>statistics.mean\<close>: the exact mean of the values, converted to a float\<close>
  "mean xs = (if xs = [] then Inl StatisticsError
              else Inr (float_round (sum_list xs / of_nat (length xs))))"

fun digits :: "nat \<Rightarrow> string" where
  "digits n = (if n < 10 then [char_of (48 + n)]
               else digits (n div 10) @ [char_of (48 + n mod 10)])"

declare digits.simps [simp del]

definition format_0f :: "rat \<Rightarrow> string" where
  \<comment> \<open>the format \<open>{:.0f}\<close>: the nearest integer, ties to even, in decimal\<close>
  "format_0f x = (if x < 0 then ''-'' else []) @ digits (nat (round_half_even \<bar>x\<bar>))"

subsection \<open>Strings\<close>

text \<open>
  Strings are their UTF-8 bytes: two Python strings are equal exactly when their encodings
  are. The labels of the configuration start with a pictograph, written here as its bytes.
\<close>

definition ascii_lower :: "char \<Rightarrow> char" where
  "ascii_lower c = (if CHR ''A'' \<le> c \<and> c \<le> CHR ''Z'' then char_of (of_char c + (32::nat)) else c)"

definition same_up_to_case :: "string \<Rightarrow> string \<Rightarrow> bool" where
  \<comment> \<open>the two strings differ at most in the case of their ASCII letters\<close>
  "same_up_to_case a b \<longleftrightarrow> map ascii_lower a = map ascii_lower b"

section \<open>The automation object\<close>

record automation =
  category_mapping :: "string \<rightharpoonup> string"
  monthly_targets :: "(string \<times> int) list"
  spending_alert_threshold :: rat

definition carrot :: string where "carrot = [CHR 0xF0, CHR 0x9F, CHR 0xA5, CHR 0x95]"
definition couch :: string where
  "couch = [CHR 0xF0, CHR 0x9F, CHR 0x9B, CHR 0x8B, CHR 0xEF, CHR 0xB8, CHR 0x8F]"
definition lotus_woman :: string where
  "lotus_woman = [CHR 0xF0, CHR 0x9F, CHR 0xA7, CHR 0x98, CHR 0xE2, CHR 0x80, CHR 0x8D,
                  CHR 0xE2, CHR 0x99, CHR 0x80, CHR 0xEF, CHR 0xB8, CHR 0x8F]"
definition baby_bottle :: string where "baby_bottle = [CHR 0xF0, CHR 0x9F, CHR 0x8D, CHR 0xBC]"
definition bagel :: string where "bagel = [CHR 0xF0, CHR 0x9F, CHR 0xA5, CHR 0xAF]"
definition fuel_pump :: string where
  "fuel_pump = [CHR 0xE2, CHR 0x9B, CHR 0xBD, CHR 0xEF, CHR 0xB8, CHR 0x8F]"
definition health_worker :: string where
  "health_worker = [CHR 0xF0, CHR 0x9F, CHR 0x91, CHR 0xA9, CHR 0xE2, CHR 0x80, CHR 0x8D,
                    CHR 0xE2, CHR 0x9A, CHR 0x95, CHR 0xEF, CHR 0xB8, CHR 0x8F]"
definition guide_dog :: string where "guide_dog = [CHR 0xF0, CHR 0x9F, CHR 0xA6, CHR 0xAE]"
definition repeat_sign :: string where "repeat_sign = [CHR 0xF0, CHR 0x9F, CHR 0x94, CHR 0x81]"
definition popcorn :: string where "popcorn = [CHR 0xF0, CHR 0x9F, CHR 0x8D, CHR 0xBF]"
definition hammer :: string where "hammer = [CHR 0xF0, CHR 0x9F, CHR 0x94, CHR 0xA8]"
definition cart :: string where "cart = [CHR 0xF0, CHR 0x9F, CHR 0x9B, CHR 0x92]"
definition plate :: string where
  "plate = [CHR 0xF0, CHR 0x9F, CHR 0x8D, CHR 0xBD, CHR 0xEF, CHR 0xB8, CHR 0x8F]"
definition car :: string where "car = [CHR 0xF0, CHR 0x9F, CHR 0x9A, CHR 0x97]"
definition hospital :: string where "hospital = [CHR 0xF0, CHR 0x9F, CHR 0x8F, CHR 0xA5]"
definition dog :: string where "dog = [CHR 0xF0, CHR 0x9F, CHR 0x90, CHR 0x95]"
definition game_pad :: string where "game_pad = [CHR 0xF0, CHR 0x9F, CHR 0x8E, CHR 0xAE]"
definition wrench :: string where "wrench = [CHR 0xF0, CHR 0x9F, CHR 0x94, CHR 0xA7]"

definition setup_categories :: "automation \<Rightarrow> automation" where
  "setup_categories self = self
     \<lparr> category_mapping := map_of
         [ (carrot @ ''  Groceries'', carrot @ '' Groceries''),
           (couch @ ''  Shopping'', cart @ '' Shopping & Personal''),
           (lotus_woman @ ''  Personal Care'', cart @ '' Shopping & Personal''),
           (baby_bottle @ ''  Baby Supplies'', cart @ '' Shopping & Personal''),
           (bagel @ ''  Dining Out'', plate @ '' Dining Out''),
           (fuel_pump @ ''  Gas'', car @ '' Transportation''),
           (health_worker @ ''  Medical & Pediatric'', hospital @ '' Services & Medical''),
           (guide_dog @ ''  Pet Stuff'', dog @ '' Pet Care''),
           (repeat_sign @ ''   Subscriptions'', game_pad @ '' Entertainment & Tech''),
           (popcorn @ ''  Entertainment'', game_pad @ '' Entertainment & Tech''),
           (hammer @ ''  Home Maintenance / HOA'', wrench @ '' Home Maintenance'') ],
       monthly_targets :=
         [ (carrot @ '' Groceries'', 900),
           (cart @ '' Shopping & Personal'', 675),
           (plate @ '' Dining Out'', 250),
           (car @ '' Transportation'', 150),
           (hospital @ '' Services & Medical'', 400),
           (dog @ '' Pet Care'', 300),
           (game_pad @ '' Entertainment & Tech'', 125),
           (wrench @ '' Home Maintenance'', 101) ] \<rparr>"

definition default_automation :: automation where
  \<comment> \<open>the object after \<open>load_environment\<close> with no \<open>SPENDING_ALERT_THRESHOLD\<close> set, and
      \<open>setup_categories\<close>\<close>
  "default_automation = setup_categories
     \<lparr> category_mapping = Map.empty, monthly_targets = [], spending_alert_threshold = 90 \<rparr>"

section \<open>Aggregating transactions\<close>

text \<open>
  A transaction of the provider's JSON: \<open>amount\<close> in milliunits, and \<open>category_name\<close>,
  which may be absent from the object, \<open>null\<close>, or a string. The result of the aggregation
  is a dictionary that is only looked up, a map: two such dictionaries are equal when they
  have the same keys with the same values.
\<close>

datatype json_name = Absent | Null | Name string

record transaction =
  amount :: int
  category_name :: json_name

definition map_label :: "automation \<Rightarrow> string \<Rightarrow> string" where
  \<comment> \<open>\<open>self.category_mapping.get(category_name, category_name)\<close> on a string\<close>
  "map_label self label =
     (case category_mapping self label of None \<Rightarrow> label | Some c \<Rightarrow> c)"

definition mapped_category :: "automation \<Rightarrow> transaction \<Rightarrow> string option" where
  \<comment> \<open>\<open>None\<close> is Python's \<open>None\<close>: a \<open>null\<close> name is no key of the table and stays \<open>None\<close>\<close>
  "mapped_category self t =
     (case category_name t of
        Absent \<Rightarrow> Some (map_label self ''Uncategorized'')
      | Null \<Rightarrow> None
      | Name s \<Rightarrow> Some (map_label self s))"

definition has_target :: "automation \<Rightarrow> string \<Rightarrow> bool" where
  \<comment> \<open>\<open>mapped_category in self.monthly_targets\<close>\<close>
  "has_target self c \<longleftrightarrow> c \<in> set (map fst (monthly_targets self))"

definition milliunits :: "int \<Rightarrow> rat" where
  \<comment> \<open>\<open>abs(transaction['amount']) / 1000\<close>: true division of two integers\<close>
  "milliunits a = fdiv (of_int \<bar>a\<bar>) 1000"

definition add_transaction ::
  "automation \<Rightarrow> (string \<rightharpoonup> rat) \<Rightarrow> transaction \<Rightarrow> (string \<rightharpoonup> rat)" where
  "add_transaction self spending_by_category t =
     (if amount t < 0 then
        (case mapped_category self t of
           None \<Rightarrow> spending_by_category
         | Some c \<Rightarrow>
             if has_target self c then
               spending_by_category
                 (c \<mapsto> fadd (case spending_by_category c of None \<Rightarrow> 0 | Some s \<Rightarrow> s)
                            (milliunits (amount t)))
             else spending_by_category)
      else spending_by_category)"

definition process_transactions :: "automation \<Rightarrow> transaction list \<Rightarrow> (string \<rightharpoonup> rat)" where
  "process_transactions self transactions = foldl (add_transaction self) Map.empty transactions"


section \<open>Metrics\<close>

record metric =
  spent :: rat
  target :: int
  percentage :: rat
  status :: string
  status_color :: string

definition siren :: string where "siren = [CHR 0xF0, CHR 0x9F, CHR 0x9A, CHR 0xA8]"
definition warning_sign :: string where
  "warning_sign = [CHR 0xE2, CHR 0x9A, CHR 0xA0, CHR 0xEF, CHR 0xB8, CHR 0x8F]"
definition check_mark :: string where "check_mark = [CHR 0xE2, CHR 0x9C, CHR 0x85]"

definition over_budget_status :: string where "over_budget_status = siren @ '' Over Budget''"
definition close_to_limit_status :: string where
  "close_to_limit_status = warning_sign @ '' Close to Limit''"
definition on_track_status :: string where "on_track_status = check_mark @ '' On Track''"

definition percentage_of :: "rat \<Rightarrow> int \<Rightarrow> py_error + rat" where
  \<comment> \<open>\<open>(spent / target * 100) if target > 0 else 0\<close>\<close>
  "percentage_of spent_v target_v =
     (if target_v > 0 then
        (case truediv spent_v (int_to_float target_v) of
           Inl e \<Rightarrow> Inl e
         | Inr q \<Rightarrow> Inr (fmul q 100))
      else Inr 0)"

definition category_metric :: "(string \<rightharpoonup> rat) \<Rightarrow> string \<Rightarrow> int \<Rightarrow> py_error + metric" where
  "category_metric spending_data c target_v =
     (let spent_v = (case spending_data c of None \<Rightarrow> 0 | Some s \<Rightarrow> s) in
      case percentage_of spent_v target_v of
        Inl e \<Rightarrow> Inl e
      | Inr p \<Rightarrow>
          Inr (if p > 100 then
                 \<lparr> spent = spent_v, target = target_v, percentage = p,
                   status = over_budget_status, status_color = ''#dc3545'' \<rparr>
               else if p > 90 then
                 \<lparr> spent = spent_v, target = target_v, percentage = p,
                   status = close_to_limit_status, status_color = ''#ffc107'' \<rparr>
               else
                 \<lparr> spent = spent_v, target = target_v, percentage = p,
                   status = on_track_status, status_color = ''#28a745'' \<rparr>))"

text \<open>
  A dictionary that is iterated is an association list in insertion order with distinct
  keys; \<open>d[k] = v\<close> is \<open>AList.update k v d\<close>, which replaces the value of a present key in
  place and appends an absent one.
\<close>

definition metrics_step ::
  "(string \<rightharpoonup> rat) \<Rightarrow> py_error + (string \<times> metric) list \<Rightarrow> string \<times> int
     \<Rightarrow> py_error + (string \<times> metric) list" where
  "metrics_step spending_data acc item =
     (case acc of
        Inl e \<Rightarrow> Inl e
      | Inr metrics \<Rightarrow>
          (case category_metric spending_data (fst item) (snd item) of
             Inl e \<Rightarrow> Inl e
           | Inr m \<Rightarrow> Inr (AList.update (fst item) m metrics)))"

definition calculate_metrics ::
  "automation \<Rightarrow> (string \<rightharpoonup> rat) \<Rightarrow> py_error + (string \<times> metric) list" where
  "calculate_metrics self spending_data =
     foldl (metrics_step spending_data) (Inr []) (monthly_targets self)"

section \<open>The history store\<close>

text \<open>
  The SQLite database of \<open>setup_database\<close>: the table \<open>daily_spending\<close> with
  \<open>UNIQUE(date, category)\<close> and the table \<open>spending_alerts\<close>, each with an \<open>AUTOINCREMENT\<close>
  key, whose last value the database remembers. The columns \<open>created_at\<close>, which the clock
  fills, are left out. Dates are texts \<open>YYYY-MM-DD\<close>, compared as texts. A store is \<open>None\<close>
  when the database file is missing or has no tables: \<open>sqlite3.connect\<close> then opens an
  empty database, and every statement executed on it raises \<open>sqlite3.OperationalError\<close>.
\<close>

type_synonym date = string

record spending_row =
  row_id :: nat
  row_date :: date
  row_category :: string
  row_amount :: rat
  row_month_budget :: rat
  row_percentage :: rat

record alert_row =
  alert_id :: nat
  alert_date :: date
  alert_category :: string
  alert_row_type :: string
  alert_row_message :: string

record database =
  daily_spending :: "spending_row list"
  daily_spending_seq :: nat
  spending_alerts :: "alert_row list"
  spending_alerts_seq :: nat

type_synonym store = "database option"

definition empty_database :: database where
  "empty_database = \<lparr> daily_spending = [], daily_spending_seq = 0,
                       spending_alerts = [], spending_alerts_seq = 0 \<rparr>"

definition setup_database :: "store \<Rightarrow> store" where
  \<comment> \<open>\<open>CREATE TABLE IF NOT EXISTS\<close>, twice: a new file gets two empty tables\<close>
  "setup_database st = (case st of None \<Rightarrow> Some empty_database | Some db \<Rightarrow> Some db)"

definition insert_or_replace ::
  "store \<Rightarrow> date \<Rightarrow> string \<Rightarrow> rat \<Rightarrow> rat \<Rightarrow> rat \<Rightarrow> py_error + store" where
  \<comment> \<open>\<open>INSERT OR REPLACE INTO daily_spending\<close>: the rows in conflict on (date, category) are
      deleted, then the new row is inserted under a fresh key\<close>
  "insert_or_replace st d c a b p =
     (case st of
        None \<Rightarrow> Inl OperationalError
      | Some db \<Rightarrow>
          let i = Suc (daily_spending_seq db) in
          Inr (Some (db \<lparr> daily_spending :=
                 filter (\<lambda>r. \<not> (row_date r = d \<and> row_category r = c)) (daily_spending db)
                 @ [\<lparr> row_id = i, row_date = d, row_category = c, row_amount = a,
                      row_month_budget = b, row_percentage = p \<rparr>],
               daily_spending_seq := i \<rparr>)))"

definition save_row :: "date \<Rightarrow> py_error + store \<Rightarrow> string \<times> metric \<Rightarrow> py_error + store" where
  "save_row today acc item =
     (case acc of
        Inl e \<Rightarrow> Inl e
      | Inr st \<Rightarrow>
          insert_or_replace st today (fst item) (spent (snd item))
            (int_to_float (target (snd item))) (percentage (snd item)))"

definition save_daily_data ::
  "date \<Rightarrow> (string \<rightharpoonup> rat) \<Rightarrow> (string \<times> metric) list \<Rightarrow> store \<Rightarrow> py_error + store" where
  \<comment> \<open>\<open>today\<close> is \<open>datetime.now().strftime('%Y-%m-%d')\<close>; \<open>spending_data\<close> is not used\<close>
  "save_daily_data today spending_data metrics st = foldl (save_row today) (Inr st) metrics"

record data_point =
  point_date :: date
  point_amount :: rat
  point_percentage :: rat

definition append_point ::
  "(string \<times> data_point list) list \<Rightarrow> spending_row \<Rightarrow> (string \<times> data_point list) list" where
  \<comment> \<open>\<open>data[category].append(...)\<close> on a \<open>defaultdict(list)\<close>\<close>
  "append_point data r =
     AList.update (row_category r)
       ((case map_of data (row_category r) of None \<Rightarrow> [] | Some ps \<Rightarrow> ps)
        @ [\<lparr> point_date = row_date r, point_amount = row_amount r,
              point_percentage = row_percentage r \<rparr>])
       data"

definition select_since :: "date \<Rightarrow> database \<Rightarrow> spending_row list" where
  \<comment> \<open>\<open>WHERE date >= ? ORDER BY date ASC\<close>, which SQLite answers through the index of
      \<open>UNIQUE(date, category)\<close>: the rows come by date, those of one date by category
      (the sort is stable, so the second sort keeps the order of the first within a date)\<close>
  "select_since cutoff_date db =
     sort_key row_date
       (sort_key row_category
          (filter (\<lambda>r. cutoff_date \<le> row_date r) (daily_spending db)))"

definition get_historical_data ::
  "date \<Rightarrow> store \<Rightarrow> py_error + (string \<times> data_point list) list" where
  \<comment> \<open>\<open>cutoff_date\<close> is the date \<open>days\<close> days before now\<close>
  "get_historical_data cutoff_date st =
     (case st of
        None \<Rightarrow> Inl OperationalError
      | Some db \<Rightarrow> Inr (foldl append_point [] (select_since cutoff_date db)))"

section \<open>Trends\<close>

record trend_entry =
  trend :: string
  trend_color :: string
  slope :: rat
  projected_total :: rat
  avg_daily :: rat

definition chart_up :: string where "chart_up = [CHR 0xF0, CHR 0x9F, CHR 0x93, CHR 0x88]"
definition chart_down :: string where "chart_down = [CHR 0xF0, CHR 0x9F, CHR 0x93, CHR 0x89]"
definition right_arrow :: string where
  "right_arrow = [CHR 0xE2, CHR 0x9E, CHR 0xA1, CHR 0xEF, CHR 0xB8, CHR 0x8F]"

definition increasing :: string where "increasing = chart_up @ '' Increasing''"
definition decreasing :: string where "decreasing = chart_down @ '' Decreasing''"
definition stable :: string where "stable = right_arrow @ '' Stable''"

definition last_n :: "nat \<Rightarrow> 'a list \<Rightarrow> 'a list" where
  \<comment> \<open>the slice \<open>xs[-n:]\<close> for \<open>n > 0\<close>\<close>
  "last_n n xs = drop (length xs - n) xs"

definition regression_slope :: "sum_algorithm \<Rightarrow> rat list \<Rightarrow> py_error + rat" where
  "regression_slope alg amounts =
     (let x_values = [0..<length amounts];
          n = int (length amounts);
          sum_x = int (sum_list x_values);
          sum_y = py_sum alg amounts;
          sum_xy = py_sum alg (map (\<lambda>(x, y). fmul (int_to_float (int x)) y) (zip x_values amounts));
          sum_x2 = int (sum_list (map (\<lambda>x. x * x) x_values))
      in truediv (fsub (fmul (int_to_float n) sum_xy) (fmul (int_to_float sum_x) sum_y))
                 (int_to_float (n * sum_x2 - sum_x * sum_x)))"

definition trend_of_slope :: "rat \<Rightarrow> string \<times> string" where
  "trend_of_slope s =
     (if s > 5 then (increasing, ''#dc3545'')
      else if s < - 5 then (decreasing, ''#28a745'')
      else (stable, ''#6c757d''))"

definition category_trend ::
  "sum_algorithm \<Rightarrow> nat \<Rightarrow> data_point list \<Rightarrow> py_error + trend_entry option" where
  \<comment> \<open>the body of the loop; \<open>day\<close> is \<open>datetime.now().day\<close>; \<open>None\<close> when the category is
      skipped\<close>
  "category_trend alg day data_points =
     (if length data_points < 7 then Inr None
      else
        let amounts = map point_amount (last_n 14 data_points) in
        if length amounts \<ge> 2 then
          (case regression_slope alg amounts of
             Inl e \<Rightarrow> Inl e
           | Inr slope_v \<Rightarrow>
               let days_left = 30 - int day;
                   projected_additional = fmul slope_v (int_to_float days_left);
                   current_amount = (if amounts \<noteq> [] then last amounts else 0);
                   projected = fadd current_amount (max 0 projected_additional)
               in
               (case (if length amounts \<ge> 7 then mean (last_n 7 amounts) else Inr 0) of
                  Inl e \<Rightarrow> Inl e
                | Inr avg \<Rightarrow>
                    Inr (Some \<lparr> trend = fst (trend_of_slope slope_v),
                                trend_color = snd (trend_of_slope slope_v),
                                slope = slope_v,
                                projected_total = projected,
                                avg_daily = avg \<rparr>)))
        else Inr None)"

definition trends_step ::
  "sum_algorithm \<Rightarrow> nat \<Rightarrow> py_error + (string \<times> trend_entry) list \<Rightarrow> string \<times> data_point list
     \<Rightarrow> py_error + (string \<times> trend_entry) list" where
  "trends_step alg day acc item =
     (case acc of
        Inl e \<Rightarrow> Inl e
      | Inr trends \<Rightarrow>
          (case category_trend alg day (snd item) of
             Inl e \<Rightarrow> Inl e
           | Inr None \<Rightarrow> Inr trends
           | Inr (Some entry) \<Rightarrow> Inr (AList.update (fst item) entry trends)))"

definition calculate_spending_trends ::
  "sum_algorithm \<Rightarrow> nat \<Rightarrow> (string \<times> data_point list) list \<Rightarrow> py_error + (string \<times> trend_entry) list" where
  "calculate_spending_trends alg day historical_data =
     foldl (trends_step alg day) (Inr []) historical_data"

section \<open>Alerts\<close>

record alert =
  alert_type :: string
  category :: string
  message :: string
  severity :: string

definition insert_alert :: "store \<Rightarrow> date \<Rightarrow> string \<Rightarrow> string \<Rightarrow> string \<Rightarrow> py_error + store" where
  \<comment> \<open>\<open>INSERT INTO spending_alerts\<close>\<close>
  "insert_alert st d c ty msg =
     (case st of
        None \<Rightarrow> Inl OperationalError
      | Some db \<Rightarrow>
          let i = Suc (spending_alerts_seq db) in
          Inr (Some (db \<lparr> spending_alerts := spending_alerts db
                 @ [\<lparr> alert_id = i, alert_date = d, alert_category = c, alert_row_type = ty,
                      alert_row_message = msg \<rparr>],
               spending_alerts_seq := i \<rparr>)))"

definition emit_alert ::
  "date \<Rightarrow> alert list \<Rightarrow> store \<Rightarrow> alert \<Rightarrow> py_error + alert list \<times> store" where
  \<comment> \<open>\<open>alerts.append(...)\<close>, then the insertion\<close>
  "emit_alert today alerts st a =
     (case insert_alert st today (category a) (alert_type a) (message a) of
        Inl e \<Rightarrow> Inl e
      | Inr st' \<Rightarrow> Inr (alerts @ [a], st'))"

definition alert_step ::
  "automation \<Rightarrow> date \<Rightarrow> py_error + alert list \<times> store \<Rightarrow> string \<times> metric
     \<Rightarrow> py_error + alert list \<times> store" where
  "alert_step self today acc item =
     (case acc of
        Inl e \<Rightarrow> Inl e
      | Inr (alerts, st) \<Rightarrow>
          let c = fst item; p = percentage (snd item) in
          if p \<ge> spending_alert_threshold self \<and> p < 100 then
            emit_alert today alerts st
              \<lparr> alert_type = ''high_spending'', category = c,
                message = c @ '' is at '' @ format_0f p @ ''% of monthly budget'',
                severity = ''warning'' \<rparr>
          else if p \<ge> 100 then
            emit_alert today alerts st
              \<lparr> alert_type = ''over_budget'', category = c,
                message = c @ '' is OVER BUDGET at '' @ format_0f p @ ''%'',
                severity = ''danger'' \<rparr>
          else Inr (alerts, st))"

definition check_spending_alerts ::
  "automation \<Rightarrow> date \<Rightarrow> (string \<times> metric) list \<Rightarrow> store \<Rightarrow> py_error + alert list \<times> store"
  where
  \<comment> \<open>\<open>today\<close> is \<open>datetime.now().strftime('%Y-%m-%d')\<close>\<close>
  "check_spending_alerts self today metrics st =
     foldl (alert_step self today) (Inr ([], st)) metrics"

section \<open>The run\<close>

text \<open>
  The steps of \<open>run\<close> between the fetch of the transactions and the notifications:
  \<open>spending_data\<close> is the result of \<open>process_transactions\<close>, \<open>alg\<close> is the interpreter's
  \<open>sum\<close>, \<open>today\<close>, \<open>cutoff_date\<close> and \<open>day\<close> are read from the clock. An exception of a step leaves \<open>run\<close>, which logs it and
  raises it again.
\<close>

definition run ::
  "automation \<Rightarrow> sum_algorithm \<Rightarrow> date \<Rightarrow> date \<Rightarrow> nat \<Rightarrow> (string \<rightharpoonup> rat) \<Rightarrow> store
     \<Rightarrow> py_error + (string \<times> metric) list \<times> (string \<times> trend_entry) list \<times> alert list \<times> store"
  where
  "run self alg today cutoff_date day spending_data st =
     (case calculate_metrics self spending_data of
        Inl e \<Rightarrow> Inl e
      | Inr metrics \<Rightarrow>
          (case save_daily_data today spending_data metrics st of
             Inl e \<Rightarrow> Inl e
           | Inr st1 \<Rightarrow>
               (case get_historical_data cutoff_date st1 of
                  Inl e \<Rightarrow> Inl e
                | Inr historical_data \<Rightarrow>
                    (case calculate_spending_trends alg day historical_data of
                       Inl e \<Rightarrow> Inl e
                     | Inr trends \<Rightarrow>
                         (case check_spending_alerts self today metrics st1 of
                            Inl e \<Rightarrow> Inl e
                          | Inr (alerts, st2) \<Rightarrow> Inr (metrics, trends, alerts, st2))))))"

section \<open>Notions used in the statements\<close>

definition contributions :: "automation \<Rightarrow> string \<Rightarrow> transaction list \<Rightarrow> rat list" where
  \<comment> \<open>the converted amounts of the outflows whose mapped category is \<open>c\<close>, in input order\<close>
  "contributions self c ts =
     map (\<lambda>t. milliunits (amount t))
       (filter (\<lambda>t. amount t < 0 \<and> mapped_category self t = Some c) ts)"

definition alerts_of :: "automation \<Rightarrow> string \<times> metric \<Rightarrow> alert list" where
  \<comment> \<open>the alerts that one iteration of the loop of \<open>check_spending_alerts\<close> appends\<close>
  "alerts_of self item =
     (let c = fst item; p = percentage (snd item) in
      if p \<ge> spending_alert_threshold self \<and> p < 100 then
        [\<lparr> alert_type = ''high_spending'', category = c,
           message = c @ '' is at '' @ format_0f p @ ''% of monthly budget'',
           severity = ''warning'' \<rparr>]
      else if p \<ge> 100 then
        [\<lparr> alert_type = ''over_budget'', category = c,
           message = c @ '' is OVER BUDGET at '' @ format_0f p @ ''%'',
           severity = ''danger'' \<rparr>]
      else [])"

definition unique_key :: "database \<Rightarrow> bool" where
  \<comment> \<open>the constraint \<open>UNIQUE(date, category)\<close>\<close>
  "unique_key db \<longleftrightarrow> distinct (map (\<lambda>r. (row_date r, row_category r)) (daily_spending db))"

definition key_rows :: "date \<Rightarrow> string \<Rightarrow> database \<Rightarrow> spending_row list" where
  \<comment> \<open>the stored rows of one (date, category) pair\<close>
  "key_rows d c db = filter (\<lambda>r. row_date r = d \<and> row_category r = c) (daily_spending db)"

definition float_rows :: "database \<Rightarrow> bool" where
  \<comment> \<open>the amounts of the stored rows are floats\<close>
  "float_rows db \<longleftrightarrow> (\<forall>r \<in> set (daily_spending db). is_float (row_amount r))"

definition window :: "data_point list \<Rightarrow> rat list" where
  \<comment> \<open>the amounts of the most recent 14 points, oldest first\<close>
  "window data_points = map point_amount (last_n 14 data_points)"

definition spec_slope :: "sum_algorithm \<Rightarrow> rat list \<Rightarrow> rat" where
  \<comment> \<open>the slope as the specification writes it,
      \<open>(n\<cdot>\<Sigma>xy - \<Sigma>x\<cdot>\<Sigma>y) / (n\<cdot>\<Sigma>x\<^sup>2 - (\<Sigma>x)\<^sup>2)\<close> over the day indices \<open>0..n-1\<close>, in float arithmetic\<close>
  "spec_slope alg ys =
     (let n = length ys;
          sx = (\<Sum>i<n. int i);
          sx2 = (\<Sum>i<n. int i * int i);
          sy = py_sum alg ys;
          sxy = py_sum alg (map (\<lambda>i. fmul (int_to_float (int i)) (ys ! i)) [0..<n])
      in fdiv (fsub (fmul (int_to_float (int n)) sxy) (fmul (int_to_float sx) sy))
              (int_to_float (int n * sx2 - sx * sx)))"

definition built_entry :: "sum_algorithm \<Rightarrow> nat \<Rightarrow> data_point list \<Rightarrow> trend_entry" where
  \<comment> \<open>the entry that the loop of \<open>calculate_spending_trends\<close> stores for a category with at
      least 7 points\<close>
  "built_entry alg day pts =
     \<lparr> trend = fst (trend_of_slope (spec_slope alg (window pts))),
       trend_color = snd (trend_of_slope (spec_slope alg (window pts))),
       slope = spec_slope alg (window pts),
       projected_total = fadd (point_amount (last pts))
          (max 0 (fmul (spec_slope alg (window pts)) (int_to_float (30 - int day)))),
       avg_daily = float_round (sum_list (last_n 7 (window pts)) / 7) \<rparr>"

section \<open>Example inputs\<close>

definition groceries :: string where "groceries = carrot @ '' Groceries''"

definition raw_groceries :: string where "raw_groceries = carrot @ ''  Groceries''"

definition raw_groceries_lower :: string where "raw_groceries_lower = carrot @ ''  groceries''"

definition shopping :: string where "shopping = cart @ '' Shopping & Personal''"

definition small_outflows :: "transaction list" where
  "small_outflows =
     [\<lparr> amount = - 100, category_name = Name raw_groceries \<rparr>,
      \<lparr> amount = - 200, category_name = Name raw_groceries \<rparr>,
      \<lparr> amount = - 300, category_name = Name raw_groceries \<rparr>]"

definition small_outflows_reversed :: "transaction list" where
  "small_outflows_reversed =
     [\<lparr> amount = - 300, category_name = Name raw_groceries \<rparr>,
      \<lparr> amount = - 200, category_name = Name raw_groceries \<rparr>,
      \<lparr> amount = - 100, category_name = Name raw_groceries \<rparr>]"

definition dining_out :: string where "dining_out = plate @ '' Dining Out''"

definition mixed_outflows :: "transaction list" where
  "mixed_outflows =
     [\<lparr> amount = - 100, category_name = Name raw_groceries \<rparr>,
      \<lparr> amount = - 45000, category_name = Name (bagel @ ''  Dining Out'') \<rparr>,
      \<lparr> amount = - 5000, category_name = Absent \<rparr>,
      \<lparr> amount = - 200, category_name = Name raw_groceries \<rparr>,
      \<lparr> amount = - 7000, category_name = Null \<rparr>,
      \<lparr> amount = 250000, category_name = Name raw_groceries \<rparr>]"

definition mixed_outflows_moved :: "transaction list" where
  "mixed_outflows_moved =
     [\<lparr> amount = 250000, category_name = Name raw_groceries \<rparr>,
      \<lparr> amount = - 200, category_name = Name raw_groceries \<rparr>,
      \<lparr> amount = - 7000, category_name = Null \<rparr>,
      \<lparr> amount = - 100, category_name = Name raw_groceries \<rparr>,
      \<lparr> amount = - 5000, category_name = Absent \<rparr>,
      \<lparr> amount = - 45000, category_name = Name (bagel @ ''  Dining Out'') \<rparr>]"

definition zero_target_automation :: automation where
  "zero_target_automation =
     \<lparr> category_mapping = Map.empty, monthly_targets = [(''Fees'', 0)],
       spending_alert_threshold = 90 \<rparr>"

definition metric_at :: "rat \<Rightarrow> rat \<Rightarrow> metric" where
  "metric_at s p = \<lparr> spent = s, target = 900, percentage = p, status = on_track_status,
                     status_color = ''#28a745'' \<rparr>"

definition example_metrics :: "(string \<times> metric) list" where
  "example_metrics =
     [(''At threshold'', metric_at 810 90), (''At budget'', metric_at 900 100),
      (''Below'', metric_at 450 50)]"

definition old_database :: database where
  "old_database = empty_database
     \<lparr> daily_spending :=
         [\<lparr> row_id = 1, row_date = ''2023-11-30'', row_category = groceries, row_amount = 810,
            row_month_budget = 900, row_percentage = 90 \<rparr>],
       daily_spending_seq := 1 \<rparr>"

definition same_day_rows :: database where
  \<comment> \<open>two rows of one date, inserted in the reverse order of their categories, after a
      row of a later date\<close>
  "same_day_rows = empty_database
     \<lparr> daily_spending :=
         [\<lparr> row_id = 1, row_date = ''2024-01-15'', row_category = ''Travel'', row_amount = 30,
            row_month_budget = 300, row_percentage = 10 \<rparr>,
          \<lparr> row_id = 2, row_date = ''2024-01-14'', row_category = ''Travel'', row_amount = 15,
            row_month_budget = 300, row_percentage = 5 \<rparr>,
          \<lparr> row_id = 3, row_date = ''2024-01-14'', row_category = ''Fees'', row_amount = 5,
            row_month_budget = 50, row_percentage = 10 \<rparr>],
       daily_spending_seq := 3 \<rparr>"

definition pt :: "string \<Rightarrow> rat \<Rightarrow> data_point" where
  "pt d a = \<lparr> point_date = d, point_amount = a, point_percentage = fmul (fdiv a 900) 100 \<rparr>"

definition rising_points :: "data_point list" where
  "rising_points =
     [pt ''2024-01-09'' 100, pt ''2024-01-10'' 100, pt ''2024-01-11'' 100,
      pt ''2024-01-12'' 100, pt ''2024-01-13'' 100, pt ''2024-01-14'' 100,
      pt ''2024-01-15'' 200]"

definition falling_points :: "data_point list" where
  "falling_points =
     [pt ''2024-01-09'' 200, pt ''2024-01-10'' 100, pt ''2024-01-11'' 100,
      pt ''2024-01-12'' 100, pt ''2024-01-13'' 100, pt ''2024-01-14'' 100,
      pt ''2024-01-15'' 100]"

definition short_points :: "data_point list" where
  "short_points = [pt ''2024-01-14'' 100, pt ''2024-01-15'' 100]"

definition long_points :: "data_point list" where
  \<comment> \<open>15 points: the oldest one is outside the window of 14\<close>
  "long_points =
     [pt ''2024-01-01'' 1000, pt ''2024-01-02'' 10, pt ''2024-01-03'' 20,
      pt ''2024-01-04'' 30, pt ''2024-01-05'' 40, pt ''2024-01-06'' 50,
      pt ''2024-01-07'' 60, pt ''2024-01-08'' 70, pt ''2024-01-09'' 80,
      pt ''2024-01-10'' 90, pt ''2024-01-11'' 100, pt ''2024-01-12'' 110,
      pt ''2024-01-13'' 120, pt ''2024-01-14'' 130, pt ''2024-01-15'' 140]"

definition example_history :: "(string \<times> data_point list) list" where
  "example_history =
     [(''Rising'', rising_points), (''Falling'', falling_points),
      (''Short'', short_points), (''Long'', long_points)]"

section \<open>Float rounding\<close>

lemma round_half_even_bounds:
  "of_int (round_half_even q) \<le> q + 1 / 2" "q - 1 / 2 \<le> of_int (round_half_even q)"
  "\<lfloor>q\<rfloor> \<le> round_half_even q" "round_half_even q \<le> \<lfloor>q\<rfloor> + 1"
  unfolding round_half_even_def Let_def by (auto; linarith)+

lemma round_half_even_of_int [simp]: "round_half_even (of_int n) = n"
  by (simp add: round_half_even_def)

lemma round_half_even_mono:
  assumes "x \<le> y"
  shows "round_half_even x \<le> round_half_even y"
proof (cases "\<lfloor>x\<rfloor> = \<lfloor>y\<rfloor>")
  case True
  with assms show ?thesis
    unfolding round_half_even_def Let_def by auto
next
  case False
  with assms have "\<lfloor>x\<rfloor> < \<lfloor>y\<rfloor>"
    by (simp add: floor_mono order.strict_iff_order)
  then have "round_half_even x \<le> \<lfloor>y\<rfloor>"
    using round_half_even_bounds(4) [of x] by linarith
  then show ?thesis
    using round_half_even_bounds(3) [of y] by linarith
qed

lemma ilog2_bounds:
  assumes "0 < x"
  shows "power_int 2 (ilog2 x) \<le> x" "x < power_int 2 (ilog2 x + 1)"
proof -
  obtain p d where pd: "quotient_of x = (p, d)" by (cases "quotient_of x")
  then have d: "0 < d" and x: "x = of_int p / of_int d"
    by (auto dest: quotient_of_denom_pos quotient_of_div)
  with assms have p: "0 < p"
    by (simp add: zero_less_divide_iff)
  define k where "k = bitlen p - bitlen d"
  have bp: "2 ^ nat (bitlen p - 1) \<le> p" "p < 2 ^ nat (bitlen p)"
    using bitlen_bounds [OF p] by auto
  have bd: "2 ^ nat (bitlen d - 1) \<le> d" "d < 2 ^ nat (bitlen d)"
    using bitlen_bounds [OF d] by auto
  define a where "a = nat (bitlen p - 1)"
  define b where "b = nat (bitlen d - 1)"
  have "bitlen p \<noteq> 0" "bitlen d \<noteq> 0"
    using p d by (simp_all add: bitlen_eq_zero_iff)
  then have ba: "bitlen p = int a + 1" and bb: "bitlen d = int b + 1"
    using bitlen_nonneg [of p] bitlen_nonneg [of d] by (simp_all add: a_def b_def)
  have na: "nat (bitlen p) = a + 1" and nb: "nat (bitlen d) = b + 1"
    by (simp_all add: ba bb)
  have "(of_int (2 ^ a) :: rat) \<le> of_int p" "(of_int p :: rat) < of_int (2 ^ (a + 1))"
    using bp unfolding na a_def [symmetric] by (simp_all only: of_int_le_iff of_int_less_iff)
  then have pa: "(2::rat) ^ a \<le> of_int p" "of_int p < (2::rat) ^ (a + 1)"
    by simp_all
  have "(of_int (2 ^ b) :: rat) \<le> of_int d" "(of_int d :: rat) < of_int (2 ^ (b + 1))"
    using bd unfolding nb b_def [symmetric] by (simp_all only: of_int_le_iff of_int_less_iff)
  then have db: "(2::rat) ^ b \<le> of_int d" "of_int d < (2::rat) ^ (b + 1)"
    by simp_all
  have k: "k = int a - int b" by (simp add: k_def ba bb)
  have e1: "(2::rat) ^ (a + 1) / 2 ^ b = power_int 2 (k + 1)"
  proof -
    have "k + 1 = int (a + 1) - int b"
      by (simp add: k)
    then have "power_int (2::rat) (k + 1) = power_int 2 (int (a + 1) - int b)"
      by (rule arg_cong)
    also have "\<dots> = power_int 2 (int (a + 1)) / power_int 2 (int b)"
      by (rule power_int_diff) simp
    also have "\<dots> = 2 ^ (a + 1) / 2 ^ b"
      by (simp only: power_int_of_nat)
    finally show ?thesis by simp
  qed
  have e2: "(2::rat) ^ a / 2 ^ (b + 1) = power_int 2 (k - 1)"
  proof -
    have "k - 1 = int a - int (b + 1)"
      by (simp add: k)
    then have "power_int (2::rat) (k - 1) = power_int 2 (int a - int (b + 1))"
      by (rule arg_cong)
    also have "\<dots> = power_int 2 (int a) / power_int 2 (int (b + 1))"
      by (rule power_int_diff) simp
    also have "\<dots> = 2 ^ a / 2 ^ (b + 1)"
      by (simp only: power_int_of_nat)
    finally show ?thesis by simp
  qed
  have "x < 2 ^ (a + 1) / 2 ^ b"
    unfolding x using pa db p by (intro frac_less) simp_all
  then have up: "x < power_int 2 (k + 1)"
    by (simp only: e1)
  have "(2::rat) ^ a / 2 ^ (b + 1) \<le> x"
    unfolding x using pa(1) less_imp_le [OF db(2)] d p by (intro frac_le) simp_all
  then have lo: "power_int 2 (k - 1) \<le> x"
    by (simp only: e2)
  have il: "ilog2 x = (if power_int 2 k \<le> x then k else k - 1)"
    by (simp add: ilog2_def pd k_def Let_def)
  show "power_int 2 (ilog2 x) \<le> x" using lo by (simp add: il)
  show "x < power_int 2 (ilog2 x + 1)" using up by (auto simp add: il)
qed


lemma ilog2_mono:
  assumes "0 < x" "x \<le> y"
  shows "ilog2 x \<le> ilog2 y"
proof (rule ccontr)
  assume "\<not> ilog2 x \<le> ilog2 y"
  then have "ilog2 y + 1 \<le> ilog2 x" by simp
  then have "power_int (2::rat) (ilog2 y + 1) \<le> power_int 2 (ilog2 x)"
    by (intro power_int_increasing) simp_all
  also have "\<dots> \<le> x" using assms(1) by (rule ilog2_bounds)
  also have "\<dots> \<le> y" by fact
  also have "\<dots> < power_int 2 (ilog2 y + 1)"
    using assms by (intro ilog2_bounds) simp
  finally show False by simp
qed

lemma round_pos_nonneg:
  assumes "0 < x"
  shows "0 \<le> round_pos x"
proof -
  define e where "e = max (ilog2 x - 52) (- 1074)"
  have "0 \<le> x / power_int 2 e" using assms by simp
  then have "round_half_even (of_int 0) \<le> round_half_even (x / power_int 2 e)"
    by (intro round_half_even_mono) simp
  then have "0 \<le> round_half_even (x / power_int 2 e)"
    by (simp only: round_half_even_of_int)
  then show ?thesis
    by (simp add: round_pos_def e_def Let_def)
qed

lemma round_pos_mono:
  assumes "0 < x" "x \<le> y"
  shows "round_pos x \<le> round_pos y"
proof -
  define ex where "ex = max (ilog2 x - 52) (- 1074)"
  define ey where "ey = max (ilog2 y - 52) (- 1074)"
  have rx: "round_pos x = of_int (round_half_even (x / power_int 2 ex)) * power_int 2 ex"
    and ry: "round_pos y = of_int (round_half_even (y / power_int 2 ey)) * power_int 2 ey"
    by (simp_all add: round_pos_def ex_def ey_def Let_def)
  have y: "0 < y" using assms by simp
  have "ex \<le> ey"
    using ilog2_mono [OF assms] by (simp add: ex_def ey_def)
  then consider "ex = ey" | "ex < ey" by linarith
  then show ?thesis
  proof cases
    case 1
    have "x / power_int 2 ey \<le> y / power_int 2 ey"
      using assms by (simp add: divide_right_mono)
    then have "round_half_even (x / power_int 2 ey) \<le> round_half_even (y / power_int 2 ey)"
      by (rule round_half_even_mono)
    then show ?thesis
      unfolding rx ry 1 by (simp add: mult_right_mono)
  next
    case 2
    then have ey: "ey = ilog2 y - 52" unfolding ex_def ey_def by linarith
    have "x < power_int 2 (ilog2 x + 1)" using assms(1) by (rule ilog2_bounds)
    also have "\<dots> \<le> power_int 2 (ex + 53)"
      by (intro power_int_increasing) (simp_all add: ex_def)
    also have "\<dots> = 2 ^ 53 * power_int 2 ex"
      by (subst power_int_add) simp_all
    finally have "x / power_int 2 ex \<le> of_int (2 ^ 53)"
      by (simp add: pos_divide_le_eq)
    then have "round_half_even (x / power_int 2 ex) \<le> round_half_even (of_int (2 ^ 53))"
      by (rule round_half_even_mono)
    then have "round_half_even (x / power_int 2 ex) \<le> 2 ^ 53"
      by (simp only: round_half_even_of_int)
    then have "(of_int (round_half_even (x / power_int 2 ex)) :: rat) \<le> of_int (2 ^ 53)"
      by (simp only: of_int_le_iff)
    then have "round_pos x \<le> 2 ^ 53 * power_int 2 ex"
      unfolding rx by (simp add: mult_right_mono)
    also have "\<dots> = power_int 2 (ex + 53)"
      by (subst power_int_add) simp_all
    also have "\<dots> \<le> power_int 2 (ey + 52)"
      using 2 by (intro power_int_increasing) simp_all
    also have "\<dots> = 2 ^ 52 * power_int 2 ey"
      by (subst power_int_add) simp_all
    also have "\<dots> \<le> round_pos y"
    proof -
      have "power_int 2 (ey + 52) \<le> y"
        using ilog2_bounds(1) [OF y] by (simp add: ey)
      then have "2 ^ 52 * power_int 2 ey \<le> y"
        by (subst (asm) power_int_add) simp_all
      then have "of_int (2 ^ 52) \<le> y / power_int 2 ey"
        by (simp add: pos_le_divide_eq)
      then have "round_half_even (of_int (2 ^ 52)) \<le> round_half_even (y / power_int 2 ey)"
        by (rule round_half_even_mono)
      then have "2 ^ 52 \<le> round_half_even (y / power_int 2 ey)"
        by (simp only: round_half_even_of_int)
      then have "(of_int (2 ^ 52) :: rat) \<le> of_int (round_half_even (y / power_int 2 ey))"
        by (simp only: of_int_le_iff)
      then show ?thesis
        unfolding ry by (simp add: mult_right_mono)
    qed
    finally show ?thesis .
  qed
qed

lemma float_round_0 [simp]: "float_round 0 = 0"
  by (simp add: float_round_def)

lemma float_round_minus: "float_round (- x) = - float_round x"
  by (simp add: float_round_def)

lemma float_round_nonneg: "0 \<le> x \<Longrightarrow> 0 \<le> float_round x"
  by (simp add: float_round_def round_pos_nonneg)

lemma float_round_mono:
  assumes "x \<le> y"
  shows "float_round x \<le> float_round y"
proof -
  consider "0 < x" | "x \<le> 0" "0 \<le> y" | "y < 0" by linarith
  then show ?thesis
  proof cases
    case 1
    with assms show ?thesis by (simp add: float_round_def round_pos_mono)
  next
    case 2
    then have "float_round x \<le> 0"
      using float_round_nonneg [of "- x"] by (simp add: float_round_minus)
    also have "0 \<le> float_round y" using 2 by (simp add: float_round_nonneg)
    finally show ?thesis .
  next
    case 3
    then have "round_pos (- y) \<le> round_pos (- x)"
      using assms by (intro round_pos_mono) simp_all
    with 3 assms show ?thesis by (simp add: float_round_def)
  qed
qed

lemma ilog2_less:
  assumes "0 < x" "x < power_int 2 (k + 1)"
  shows "ilog2 x \<le> k"
proof (rule ccontr)
  assume "\<not> ilog2 x \<le> k"
  then have "k + 1 \<le> ilog2 x" by simp
  then have "power_int (2::rat) (k + 1) \<le> power_int 2 (ilog2 x)"
    by (intro power_int_increasing) simp_all
  also have "\<dots> \<le> x" using assms(1) by (rule ilog2_bounds)
  finally show False using assms(2) by simp
qed

lemma ilog2_power: "ilog2 (power_int 2 k) = k"
proof -
  have pos: "(0::rat) < power_int 2 k" by simp
  have "ilog2 (power_int 2 k) \<le> k"
    by (rule ilog2_less [OF pos]) (simp add: power_int_strict_increasing)
  moreover have "k \<le> ilog2 (power_int 2 k)"
  proof (rule ccontr)
    assume "\<not> k \<le> ilog2 (power_int 2 k)"
    then have "ilog2 (power_int 2 k) + 1 \<le> k" by simp
    then have "power_int (2::rat) (ilog2 (power_int 2 k) + 1) \<le> power_int 2 k"
      by (intro power_int_increasing) simp_all
    then show False using ilog2_bounds(2) [OF pos] by simp
  qed
  ultimately show ?thesis by simp
qed

lemma round_pos_exact:
  assumes m: "0 < m" "m \<le> 2 ^ 53" and k: "- 1074 \<le> k"
  shows "round_pos (of_int m * power_int 2 k) = of_int m * power_int 2 k"
proof -
  define x :: rat where "x = of_int m * power_int 2 k"
  define e where "e = max (ilog2 x - 52) (- 1074)"
  have x: "0 < x" using m by (simp add: x_def)
  have "\<exists>n. x / power_int 2 e = of_int n"
  proof (cases "m = 2 ^ 53")
    case True
    then have x2: "x = power_int 2 (k + 53)"
      by (simp add: x_def power_int_add)
    then have "ilog2 x = k + 53" by (simp add: ilog2_power)
    then have "e = k + 1" using k by (simp add: e_def)
    then have "x / power_int 2 e = power_int 2 ((k + 53) - (k + 1))"
      unfolding x2 by (subst power_int_diff) simp_all
    also have "\<dots> = of_int (2 ^ 52)" by simp
    finally show ?thesis by blast
  next
    case False
    with m have "m < 2 ^ 53" by simp
    then have "(of_int m :: rat) < of_int (2 ^ 53)" by (simp only: of_int_less_iff)
    then have "x < 2 ^ 53 * power_int 2 k"
      by (simp add: x_def)
    also have "\<dots> = power_int 2 (k + 52 + 1)"
      by (simp add: power_int_add)
    finally have "ilog2 x \<le> k + 52" using x by (intro ilog2_less)
    then have "e \<le> k" using k by (simp add: e_def)
    define d where "d = nat (k - e)"
    have d: "k = e + int d" using \<open>e \<le> k\<close> by (simp add: d_def)
    have "x / power_int 2 e = of_int m * (power_int 2 (e + int d) / power_int 2 e)"
      by (simp add: x_def d)
    also have "power_int (2::rat) (e + int d) / power_int 2 e = 2 ^ d"
      by (simp add: power_int_add)
    also have "of_int m * (2::rat) ^ d = of_int (m * 2 ^ d)" by simp
    finally show ?thesis by blast
  qed
  then obtain n where n: "x / power_int 2 e = of_int n" ..
  have "round_pos x = of_int (round_half_even (x / power_int 2 e)) * power_int 2 e"
    by (simp add: round_pos_def e_def Let_def)
  also have "\<dots> = x / power_int 2 e * power_int 2 e"
    by (simp add: n)
  also have "\<dots> = x" by simp
  finally show ?thesis by (simp add: x_def)
qed

lemma float_round_exact:
  assumes "\<bar>m\<bar> \<le> 2 ^ 53" "- 1074 \<le> k"
  shows "float_round (of_int m * power_int 2 k) = of_int m * power_int 2 k"
proof -
  consider "m = 0" | "0 < m" | "m < 0" by linarith
  then show ?thesis
  proof cases
    case 1
    then show ?thesis by simp
  next
    case 2
    then have "(0::rat) < of_int m * power_int 2 k" by simp
    then show ?thesis
      using round_pos_exact [of m k] assms 2 by (simp add: float_round_def)
  next
    case 3
    then have neg: "of_int m * power_int 2 k < (0::rat)" by (simp add: mult_less_0_iff)
    have "round_pos (of_int (- m) * power_int 2 k) = of_int (- m) * power_int 2 k"
      using assms 3 by (intro round_pos_exact) simp_all
    then show ?thesis
      using neg by (simp add: float_round_def)
  qed
qed


lemma round_pos_significand:
  assumes "0 < x"
  shows "0 \<le> round_half_even (x / power_int 2 (max (ilog2 x - 52) (- 1074)))"
    "round_half_even (x / power_int 2 (max (ilog2 x - 52) (- 1074))) \<le> 2 ^ 53"
proof -
  define e where "e = max (ilog2 x - 52) (- 1074)"
  have "of_int 0 \<le> x / power_int 2 e" using assms by simp
  then have "round_half_even (of_int 0) \<le> round_half_even (x / power_int 2 e)"
    by (rule round_half_even_mono)
  then show "0 \<le> round_half_even (x / power_int 2 (max (ilog2 x - 52) (- 1074)))"
    by (simp only: round_half_even_of_int e_def)
  have "x < power_int 2 (ilog2 x + 1)" using assms by (rule ilog2_bounds)
  also have "\<dots> \<le> power_int 2 (e + 53)"
    by (intro power_int_increasing) (simp_all add: e_def)
  also have "\<dots> = 2 ^ 53 * power_int 2 e"
    by (subst power_int_add) simp_all
  finally have "x / power_int 2 e \<le> of_int (2 ^ 53)"
    by (simp add: pos_divide_le_eq)
  then have "round_half_even (x / power_int 2 e) \<le> round_half_even (of_int (2 ^ 53))"
    by (rule round_half_even_mono)
  then show "round_half_even (x / power_int 2 (max (ilog2 x - 52) (- 1074))) \<le> 2 ^ 53"
    by (simp only: round_half_even_of_int e_def)
qed

lemma round_pos_is_float:
  assumes "0 < x"
  shows "float_round (round_pos x) = round_pos x"
proof -
  define e where "e = max (ilog2 x - 52) (- 1074)"
  define m where "m = round_half_even (x / power_int 2 e)"
  have "\<bar>m\<bar> \<le> 2 ^ 53" "- 1074 \<le> e"
    using round_pos_significand [OF assms] by (simp_all add: m_def e_def)
  then have "float_round (of_int m * power_int 2 e) = of_int m * power_int 2 e"
    by (rule float_round_exact)
  then show ?thesis
    by (simp add: round_pos_def Let_def m_def e_def)
qed

lemma float_round_idem [simp]: "float_round (float_round x) = float_round x"
proof -
  consider "x = 0" | "0 < x" | "x < 0" by linarith
  then show ?thesis
  proof cases
    case 1
    then show ?thesis by simp
  next
    case 2
    then show ?thesis by (simp add: float_round_def [of x] round_pos_is_float)
  next
    case 3
    then have "float_round (- round_pos (- x)) = - round_pos (- x)"
      by (simp add: float_round_minus round_pos_is_float)
    with 3 show ?thesis by (simp add: float_round_def [of x])
  qed
qed

lemma is_float_round [simp]: "is_float (float_round x)"
  by (simp add: is_float_def)

lemma float_round_of_int:
  assumes "\<bar>i\<bar> \<le> 2 ^ 53"
  shows "float_round (of_int i) = of_int i"
  using float_round_exact [OF assms, of 0] by simp

lemma float_round_numeral:
  "(numeral n :: int) \<le> 2 ^ 53 \<Longrightarrow> float_round (numeral n) = numeral n"
  "(numeral n :: int) \<le> 2 ^ 53 \<Longrightarrow> float_round (- numeral n) = - numeral n"
  using float_round_of_int [of "numeral n"] float_round_of_int [of "- numeral n"] by simp_all

lemma int_to_float_exact: "\<bar>i\<bar> \<le> 2 ^ 53 \<Longrightarrow> int_to_float i = of_int i"
  by (simp add: int_to_float_def float_round_of_int)

lemma is_float_ops [simp]:
  "is_float (fadd x y)" "is_float (fsub x y)" "is_float (fmul x y)" "is_float (fdiv x y)"
  "is_float (int_to_float i)" "is_float (milliunits a)" "is_float 0"
  by (simp_all add: fadd_def fsub_def fmul_def fdiv_def int_to_float_def milliunits_def is_float_def)

lemma float_round_1: "float_round 1 = 1"
  using float_round_of_int [of 1] by simp

lemma int_to_float_pos:
  assumes "0 < t"
  shows "0 < int_to_float t"
proof -
  have "(1::rat) \<le> of_int t" using assms by simp
  then have "float_round 1 \<le> float_round (of_int t)" by (rule float_round_mono)
  then show ?thesis by (simp add: int_to_float_def float_round_1)
qed

lemma int_to_float_minus: "int_to_float (- i) = - int_to_float i"
  by (simp add: int_to_float_def float_round_minus)

lemma int_to_float_sign:
  "(0 < int_to_float i \<longleftrightarrow> 0 < i) \<and> (int_to_float i < 0 \<longleftrightarrow> i < 0)"
proof -
  consider "0 < i" | "i = 0" | "i < 0" by linarith
  then show ?thesis
  proof cases
    case 1
    then show ?thesis using int_to_float_pos [of i] by simp
  next
    case 2
    then show ?thesis by (simp add: int_to_float_def)
  next
    case 3
    then show ?thesis using int_to_float_pos [of "- i"] by (simp add: int_to_float_minus)
  qed
qed

lemma fmul_int_nonpos:
  assumes "s * of_int d \<le> 0"
  shows "fmul s (int_to_float d) \<le> 0"
proof -
  have "s * int_to_float d \<le> 0"
    using assms int_to_float_sign [of d]
    by (cases "0 < d"; cases "d < 0") (auto simp: mult_le_0_iff not_less)
  then have "float_round (s * int_to_float d) \<le> float_round 0"
    by (rule float_round_mono)
  then show ?thesis by (simp add: fmul_def)
qed

lemma projected_floor:
  assumes "is_float a"
  shows "a \<le> fadd a (max 0 p)" "p \<le> 0 \<Longrightarrow> fadd a (max 0 p) = a"
proof -
  have "float_round a \<le> float_round (a + max 0 p)"
    by (rule float_round_mono) simp
  then show "a \<le> fadd a (max 0 p)"
    using assms by (simp add: fadd_def is_float_def)
  show "fadd a (max 0 p) = a" if "p \<le> 0"
    using that assms by (simp add: fadd_def is_float_def max_def)
qed

text \<open>
  The two algorithms of \<open>sum\<close> differ on floats whose sums are not exact: for the floats
  0.1, 0.2 and 0.3 the sum from left to right is \<open>0.6000000000000001\<close>, the compensated
  sum is \<open>0.6\<close>.
\<close>

lemma py_sum_algorithms:
  "py_sum Sequential [float_round (1 / 10), float_round (2 / 10), float_round (3 / 10)]
     = 5404319552844596 / 9007199254740992"
  "py_sum Compensated [float_round (1 / 10), float_round (2 / 10), float_round (3 / 10)]
     = 5404319552844595 / 9007199254740992"
  by code_simp+

section \<open>Aggregation\<close>

lemma foldl_add_transaction:
  "foldl (add_transaction self) m ts c =
     (if has_target self c \<and> contributions self c ts \<noteq> []
      then Some (foldl fadd (case m c of None \<Rightarrow> 0 | Some s \<Rightarrow> s) (contributions self c ts))
      else m c)"
proof (induction ts arbitrary: m)
  case Nil
  then show ?case by (simp add: contributions_def)
next
  case (Cons t ts)
  show ?case
    unfolding foldl_Cons Cons.IH
    by (auto simp: add_transaction_def contributions_def split: option.splits)
qed

lemma process_transactions_eq:
  "process_transactions self ts c =
     (if has_target self c \<and> contributions self c ts \<noteq> []
      then Some (foldl fadd 0 (contributions self c ts)) else None)"
  by (simp add: process_transactions_def foldl_add_transaction)

text \<open>
  C1. \<open>process_transactions\<close> sends a category to the sum of \<open>abs(amount) / 1000\<close> over the
  transactions with a negative amount whose mapped label it is, when the category has a
  monthly target and there is such a transaction; every other category is absent, so
  transactions with an amount \<open>\<ge> 0\<close> and transactions mapped to a category without target
  contribute nothing. The label of a transaction without \<open>category_name\<close> is
  \<open>Uncategorized\<close>, a label that is a key of the mapping table is mapped to its entry and
  any other label to itself. The sum is taken in floats: each amount is divided by 1000
  once and rounded, and the quotients are added in input order, starting from 0, each
  addition rounded.
\<close>

theorem process_transactions_sums:
  "process_transactions self ts c =
     (let label = (\<lambda>t. case category_name t of
                          Absent \<Rightarrow> Some ''Uncategorized''
                        | Null \<Rightarrow> None
                        | Name l \<Rightarrow> Some l);
          mapped = (\<lambda>t. case label t of
                           None \<Rightarrow> None
                         | Some l \<Rightarrow>
                             (case category_mapping self l of
                                None \<Rightarrow> Some l
                              | Some m \<Rightarrow> Some m));
          outflows = filter (\<lambda>t. amount t < 0 \<and> mapped t = Some c) ts
      in if c \<in> fst ` set (monthly_targets self) \<and> outflows \<noteq> []
         then Some (foldl (\<lambda>total t.
                       float_round (total + float_round (of_int \<bar>amount t\<bar> / 1000)))
                     0 outflows)
         else None)"
proof -
  have m: "mapped_category self t =
      (case (case category_name t of
               Absent \<Rightarrow> Some ''Uncategorized''
             | Null \<Rightarrow> None
             | Name l \<Rightarrow> Some l) of
         None \<Rightarrow> None
       | Some l \<Rightarrow>
           (case category_mapping self l of
              None \<Rightarrow> Some l
            | Some m \<Rightarrow> Some m))" for t
    by (simp add: mapped_category_def map_label_def split: json_name.splits option.splits)
  have f: "foldl fadd a (map (\<lambda>t. milliunits (amount t)) xs)
      = foldl (\<lambda>total t. float_round (total + float_round (of_int \<bar>amount t\<bar> / 1000))) a xs"
    for a and xs :: "transaction list"
    by (induction xs arbitrary: a) (simp_all add: fadd_def milliunits_def fdiv_def)
  show ?thesis
    unfolding process_transactions_eq contributions_def f
    by (simp add: has_target_def m Let_def)
qed

theorem process_transactions_sums_witness:
  "process_transactions default_automation mixed_outflows groceries
     = Some (1351079888211149 / 4503599627370496)
   \<and> process_transactions default_automation mixed_outflows dining_out = Some 45
   \<and> process_transactions default_automation mixed_outflows ''Uncategorized'' = None
   \<and> process_transactions default_automation mixed_outflows raw_groceries = None"
proof -
  have g: "process_transactions default_automation mixed_outflows groceries
      = Some (1351079888211149 / 4503599627370496)"
    unfolding process_transactions_sums [of default_automation mixed_outflows groceries]
    by code_simp
  have d: "process_transactions default_automation mixed_outflows dining_out = Some 45"
    unfolding process_transactions_sums [of default_automation mixed_outflows dining_out]
    by code_simp
  have u: "process_transactions default_automation mixed_outflows ''Uncategorized'' = None"
    unfolding process_transactions_sums [of default_automation mixed_outflows "''Uncategorized''"]
    by code_simp
  have r: "process_transactions default_automation mixed_outflows raw_groceries = None"
    unfolding process_transactions_sums [of default_automation mixed_outflows raw_groceries]
    by code_simp
  from g d u r show ?thesis by (intro conjI)
qed

text \<open>
  C9, as stated, fails: float addition is not associative, so the total of a category
  depends on the order in which its transactions arrive. Three outflows of 100, 200 and
  300 milliunits in one category add up to \<open>0.6000000000000001\<close>, and to \<open>0.6\<close> in the
  reverse order.
\<close>

theorem process_transactions_order_dependent:
  "mset small_outflows_reversed = mset small_outflows
   \<and> process_transactions default_automation small_outflows groceries
       = Some (5404319552844596 / 9007199254740992)
   \<and> process_transactions default_automation small_outflows_reversed groceries
       = Some (5404319552844595 / 9007199254740992)
   \<and> process_transactions default_automation small_outflows_reversed
       \<noteq> process_transactions default_automation small_outflows"
proof -
  have p: "mset small_outflows_reversed = mset small_outflows"
    by (simp add: small_outflows_def small_outflows_reversed_def add.commute)
  have a: "process_transactions default_automation small_outflows groceries
       = Some (5404319552844596 / 9007199254740992)"
    by code_simp
  have b: "process_transactions default_automation small_outflows_reversed groceries
       = Some (5404319552844595 / 9007199254740992)"
    by code_simp
  have "process_transactions default_automation small_outflows_reversed groceries
       \<noteq> process_transactions default_automation small_outflows groceries"
    unfolding a b by simp
  then have "process_transactions default_automation small_outflows_reversed
       \<noteq> process_transactions default_automation small_outflows"
    by metis
  with p a b show ?thesis by simp
qed

lemma contributions_empty_iff:
  "contributions self c ts = [] \<longleftrightarrow>
     \<not> (\<exists>t \<in> set ts. amount t < 0 \<and> mapped_category self t = Some c)"
  by (auto simp: contributions_def filter_empty_conv)

lemma mset_contributions:
  "mset ts' = mset ts \<Longrightarrow> mset (contributions self c ts') = mset (contributions self c ts)"
  by (simp add: contributions_def)

lemma is_float_contributions: "a \<in> set (contributions self c ts) \<Longrightarrow> is_float a"
  by (auto simp: contributions_def)

lemma foldl_fadd_two:
  assumes "mset xs = mset ys" "length ys \<le> 2" "\<forall>a \<in> set ys. is_float a"
  shows "foldl fadd 0 xs = foldl fadd 0 ys"
proof -
  have len: "length xs = length ys" using assms(1) by (rule mset_eq_length)
  consider "ys = []" | a where "ys = [a]" | a b where "ys = [a, b]"
    using assms(2) by (cases ys rule: list.exhaust; cases "tl ys"; cases "tl (tl ys)") auto
  then show ?thesis
  proof cases
    case 1
    with assms(1) show ?thesis by simp
  next
    case 2
    with assms(1) show ?thesis by simp
  next
    case 3
    with len obtain c d where xs: "xs = [c, d]"
      by (cases xs; cases "tl xs") auto
    with 3 assms(1) have "c = a \<and> d = b \<or> c = b \<and> d = a"
      by (auto simp: add_eq_conv_ex)
    moreover have "float_round a = a" "float_round b = b"
      using assms(3) 3 by (simp_all add: is_float_def)
    ultimately show ?thesis
      by (auto simp: fadd_def xs 3 add.commute)
  qed
qed

text \<open>
  C9, amended. For every sequence of transactions and every permutation of it,
  \<open>process_transactions\<close> returns a mapping with the same categories, and the same total
  for every category whose contributing transactions keep their relative order or are
  at most two; the total of a category with three or more transactions that are
  reordered among themselves can differ in the last bits. There is no side effect: the
  result is a function of the arguments.
\<close>

theorem process_transactions_reordered:
  assumes "mset ts' = mset ts"
  shows "dom (process_transactions self ts') = dom (process_transactions self ts)
    \<and> (\<forall>c. contributions self c ts' = contributions self c ts
            \<or> length (contributions self c ts) \<le> 2 \<longrightarrow>
          process_transactions self ts' c = process_transactions self ts c)"
proof -
  have "set ts' = set ts" using assms by (rule mset_eq_setD)
  then have empty: "contributions self c ts' = [] \<longleftrightarrow> contributions self c ts = []" for c
    by (simp add: contributions_empty_iff)
  then have "dom (process_transactions self ts') = dom (process_transactions self ts)"
    by (auto simp: dom_def process_transactions_eq)
  moreover have "foldl fadd 0 (contributions self c ts') = foldl fadd 0 (contributions self c ts)"
    if "length (contributions self c ts) \<le> 2" for c
    using mset_contributions [OF assms] that is_float_contributions
    by (intro foldl_fadd_two) auto
  ultimately show ?thesis
    using empty by (auto simp: process_transactions_eq)
qed

theorem process_transactions_reordered_witness:
  "mset mixed_outflows_moved = mset mixed_outflows
   \<and> dom (process_transactions default_automation mixed_outflows_moved)
       = dom (process_transactions default_automation mixed_outflows)
   \<and> contributions default_automation dining_out mixed_outflows_moved
       = contributions default_automation dining_out mixed_outflows
   \<and> process_transactions default_automation mixed_outflows_moved dining_out
       = process_transactions default_automation mixed_outflows dining_out
   \<and> contributions default_automation groceries mixed_outflows_moved
       \<noteq> contributions default_automation groceries mixed_outflows
   \<and> length (contributions default_automation groceries mixed_outflows) \<le> 2
   \<and> process_transactions default_automation mixed_outflows_moved groceries
       = process_transactions default_automation mixed_outflows groceries"
proof -
  have p: "mset mixed_outflows_moved = mset mixed_outflows"
    by (simp add: mixed_outflows_def mixed_outflows_moved_def add.commute add.left_commute)
  have d: "contributions default_automation dining_out mixed_outflows_moved
       = contributions default_automation dining_out mixed_outflows"
    by code_simp
  have g: "contributions default_automation groceries mixed_outflows_moved
       \<noteq> contributions default_automation groceries mixed_outflows"
    by code_simp
  have l: "length (contributions default_automation groceries mixed_outflows) \<le> 2"
    by code_simp
  from process_transactions_reordered [OF p, of default_automation] p d g l show ?thesis
    by blast
qed

section \<open>Category labels\<close>

text \<open>
  C7, as stated, fails: the lookup is a dictionary lookup on the label as it is. The label
  of the table for groceries is mapped to its category; the same label with a lower-case
  \<open>g\<close> is no key of the table and passes through unchanged.
\<close>

theorem map_label_case_sensitive:
  "same_up_to_case raw_groceries raw_groceries_lower
   \<and> map_label default_automation raw_groceries = groceries
   \<and> map_label default_automation raw_groceries_lower = raw_groceries_lower
   \<and> map_label default_automation raw_groceries
       \<noteq> map_label default_automation raw_groceries_lower"
  by code_simp

text \<open>
  C7, amended. The lookup of a raw label is an exact, case-sensitive match: a label that
  is a key of the mapping table is sent to the table's entry for exactly that key, and a
  label that is no key of the table passes through unchanged as its own identifier.
\<close>

theorem map_label_exact:
  "(l \<in> dom (category_mapping self) \<longrightarrow> category_mapping self l = Some (map_label self l))
   \<and> (l \<notin> dom (category_mapping self) \<longrightarrow> map_label self l = l)"
  by (auto simp: map_label_def split: option.splits)

theorem map_label_exact_witness:
  "raw_groceries \<in> dom (category_mapping default_automation)
   \<and> category_mapping default_automation raw_groceries
       = Some (map_label default_automation raw_groceries)
   \<and> raw_groceries_lower \<notin> dom (category_mapping default_automation)
   \<and> map_label default_automation raw_groceries_lower = raw_groceries_lower"
proof -
  have a: "raw_groceries \<in> dom (category_mapping default_automation)"
    by (simp add: dom_def default_automation_def setup_categories_def raw_groceries_def)
  have "category_mapping default_automation raw_groceries_lower = None"
    by code_simp
  then have b: "raw_groceries_lower \<notin> dom (category_mapping default_automation)"
    by (simp add: dom_def)
  from a b map_label_exact [of raw_groceries default_automation]
    map_label_exact [of raw_groceries_lower default_automation]
  show ?thesis by blast
qed

section \<open>Metrics\<close>

lemma percentage_of_eq:
  "percentage_of s t = Inr (if t > 0 then fmul (fdiv s (int_to_float t)) 100 else 0)"
  using int_to_float_pos [of t] by (auto simp add: percentage_of_def truediv_def)

lemma category_metric_eq:
  "\<exists>m. category_metric sd c t = Inr m
     \<and> spent m = (case sd c of None \<Rightarrow> 0 | Some s \<Rightarrow> s)
     \<and> target m = t
     \<and> percentage m = (if t > 0 then fmul (fdiv (spent m) (int_to_float t)) 100 else 0)
     \<and> status m = (if percentage m > 100 then over_budget_status
                   else if percentage m > 90 then close_to_limit_status
                   else on_track_status)"
  by (simp add: category_metric_def percentage_of_eq Let_def)

lemma update_fresh: "k \<notin> fst ` set al \<Longrightarrow> AList.update k v al = al @ [(k, v)]"
  by (induction al) auto

lemma metrics_fold:
  assumes "distinct (map fst items)" "fst ` set items \<inter> fst ` set acc = {}"
  shows "\<exists>ms. foldl (metrics_step sd) (Inr acc) items = Inr (acc @ ms)
           \<and> list_all2 (\<lambda>i e. fst e = fst i \<and> category_metric sd (fst i) (snd i) = Inr (snd e)) items ms"
  using assms
proof (induction items arbitrary: acc)
  case Nil
  then show ?case by simp
next
  case (Cons i items)
  obtain m where m: "category_metric sd (fst i) (snd i) = Inr m"
    using category_metric_eq [of sd "fst i" "snd i"] by blast
  have fresh: "fst i \<notin> fst ` set acc" using Cons.prems by auto
  have step: "metrics_step sd (Inr acc) i = Inr (acc @ [(fst i, m)])"
    by (simp add: metrics_step_def m update_fresh [OF fresh])
  have "distinct (map fst items)" "fst ` set items \<inter> fst ` set (acc @ [(fst i, m)]) = {}"
    using Cons.prems by auto
  from Cons.IH [OF this] obtain ms where
    ms: "foldl (metrics_step sd) (Inr (acc @ [(fst i, m)])) items = Inr ((acc @ [(fst i, m)]) @ ms)"
      "list_all2 (\<lambda>i e. fst e = fst i \<and> category_metric sd (fst i) (snd i) = Inr (snd e)) items ms"
    by blast
  show ?case
    by (rule exI [of _ "(fst i, m) # ms"]) (simp add: step ms m)
qed

text \<open>
  C2. \<open>calculate_metrics\<close> never raises and returns an entry for every configured
  category, in the order of the targets, also for a category without recorded spending
  (its \<open>spent\<close> is 0). The percentage of an entry is \<open>spent / target * 100\<close> in float
  arithmetic when the target is positive and 0 otherwise, so no division by a zero target
  takes place; the status is over budget above 100, close to the limit above 90 and up
  to 100, and on track otherwise.
\<close>

theorem calculate_metrics_entries:
  assumes "distinct (map fst (monthly_targets self))"
  shows "\<exists>metrics. calculate_metrics self spending_data = Inr metrics
     \<and> map fst metrics = map fst (monthly_targets self)
     \<and> (\<forall>(c, t) \<in> set (monthly_targets self). \<exists>m. map_of metrics c = Some m
          \<and> spent m = (case spending_data c of None \<Rightarrow> 0 | Some s \<Rightarrow> s)
          \<and> target m = t
          \<and> percentage m = (if t > 0 then fmul (fdiv (spent m) (int_to_float t)) 100 else 0)
          \<and> status m = (if percentage m > 100 then over_budget_status
                        else if percentage m > 90 then close_to_limit_status
                        else on_track_status))"
proof -
  let ?R = "\<lambda>i e. fst e = fst i \<and> category_metric spending_data (fst i) (snd i) = Inr (snd e)"
  obtain ms where ms: "calculate_metrics self spending_data = Inr ms"
    and rel: "list_all2 ?R (monthly_targets self) ms"
    using metrics_fold [OF assms, of "[]" spending_data] by (auto simp: calculate_metrics_def)
  have keys: "map fst ms = map fst (monthly_targets self)"
    using rel by (induction rule: list_all2_induct) auto
  have "\<exists>m. map_of ms c = Some m
          \<and> spent m = (case spending_data c of None \<Rightarrow> 0 | Some s \<Rightarrow> s)
          \<and> target m = t
          \<and> percentage m = (if t > 0 then fmul (fdiv (spent m) (int_to_float t)) 100 else 0)
          \<and> status m = (if percentage m > 100 then over_budget_status
                        else if percentage m > 90 then close_to_limit_status
                        else on_track_status)"
    if ct: "(c, t) \<in> set (monthly_targets self)" for c t
  proof -
    from ct obtain n where n: "n < length (monthly_targets self)" "monthly_targets self ! n = (c, t)"
      by (auto simp: in_set_conv_nth)
    have len: "length ms = length (monthly_targets self)"
      using rel by (simp add: list_all2_lengthD)
    define e where "e = ms ! n"
    have e: "e \<in> set ms" "?R (c, t) e"
      using list_all2_nthD [OF rel n(1)] n len by (simp_all add: e_def)
    have "distinct (map fst ms)" using assms keys by simp
    with e have "map_of ms c = Some (snd e)"
      by (cases e) auto
    with e category_metric_eq [of spending_data c t] show ?thesis by auto
  qed
  with ms keys show ?thesis by blast
qed

theorem calculate_metrics_entries_witness:
  "distinct (map fst (monthly_targets default_automation))
   \<and> (\<exists>metrics m z. calculate_metrics default_automation [groceries \<mapsto> 950] = Inr metrics
         \<and> map_of metrics groceries = Some m \<and> spent m = 950 \<and> target m = 900
         \<and> percentage m = 7427811885420089 / 70368744177664
         \<and> status m = over_budget_status
         \<and> map_of metrics shopping = Some z \<and> spent z = 0 \<and> percentage z = 0
         \<and> status z = on_track_status)
   \<and> distinct (map fst (monthly_targets zero_target_automation))
   \<and> (\<exists>metrics f. calculate_metrics zero_target_automation [''Fees'' \<mapsto> 25] = Inr metrics
         \<and> map_of metrics ''Fees'' = Some f \<and> spent f = 25 \<and> target f = 0
         \<and> percentage f = 0 \<and> status f = on_track_status)"
proof -
  have h: "distinct (map fst (monthly_targets default_automation))"
    by code_simp
  have g: "(groceries, 900) \<in> set (monthly_targets default_automation)"
    and s: "(shopping, 675) \<in> set (monthly_targets default_automation)"
    by (simp_all add: default_automation_def setup_categories_def groceries_def shopping_def)
  have ne: "shopping \<noteq> groceries"
    by code_simp
  have v: "fmul (fdiv 950 (int_to_float 900)) 100 = 7427811885420089 / 70368744177664"
    "fmul (fdiv 0 (int_to_float 675)) 100 = 0"
    by code_simp+
  obtain metrics where run: "calculate_metrics default_automation [groceries \<mapsto> 950] = Inr metrics"
    and all: "\<forall>(c, t) \<in> set (monthly_targets default_automation). \<exists>m. map_of metrics c = Some m
          \<and> spent m = (case [groceries \<mapsto> 950] c of None \<Rightarrow> 0 | Some s \<Rightarrow> s)
          \<and> target m = t
          \<and> percentage m = (if t > 0 then fmul (fdiv (spent m) (int_to_float t)) 100 else 0)
          \<and> status m = (if percentage m > 100 then over_budget_status
                        else if percentage m > 90 then close_to_limit_status
                        else on_track_status)"
    using calculate_metrics_entries [OF h, of "[groceries \<mapsto> 950]"] by blast
  from all g obtain m where m: "map_of metrics groceries = Some m" "spent m = 950" "target m = 900"
    "percentage m = fmul (fdiv (spent m) (int_to_float 900)) 100"
    "status m = (if percentage m > 100 then over_budget_status
                 else if percentage m > 90 then close_to_limit_status else on_track_status)"
    by fastforce
  from all s ne obtain z where z: "map_of metrics shopping = Some z" "spent z = 0"
    "percentage z = fmul (fdiv (spent z) (int_to_float 675)) 100"
    "status z = (if percentage z > 100 then over_budget_status
                 else if percentage z > 90 then close_to_limit_status else on_track_status)"
    by fastforce
  have p: "percentage m = 7427811885420089 / 70368744177664" "percentage z = 0"
    using m z v by simp_all
  have first: "\<exists>metrics m z. calculate_metrics default_automation [groceries \<mapsto> 950] = Inr metrics
         \<and> map_of metrics groceries = Some m \<and> spent m = 950 \<and> target m = 900
         \<and> percentage m = 7427811885420089 / 70368744177664
         \<and> status m = over_budget_status
         \<and> map_of metrics shopping = Some z \<and> spent z = 0 \<and> percentage z = 0
         \<and> status z = on_track_status"
    using run m z p by (intro exI [of _ metrics] exI [of _ m] exI [of _ z]) simp
  have h0: "distinct (map fst (monthly_targets zero_target_automation))"
    by (simp add: zero_target_automation_def)
  obtain metrics0 where run0: "calculate_metrics zero_target_automation [''Fees'' \<mapsto> 25] = Inr metrics0"
    and all0: "\<forall>(c, t) \<in> set (monthly_targets zero_target_automation). \<exists>m. map_of metrics0 c = Some m
          \<and> spent m = (case [''Fees'' \<mapsto> 25] c of None \<Rightarrow> 0 | Some s \<Rightarrow> s)
          \<and> target m = t
          \<and> percentage m = (if t > 0 then fmul (fdiv (spent m) (int_to_float t)) 100 else 0)
          \<and> status m = (if percentage m > 100 then over_budget_status
                        else if percentage m > 90 then close_to_limit_status
                        else on_track_status)"
    using calculate_metrics_entries [OF h0, of "[''Fees'' \<mapsto> 25]"] by blast
  from all0 obtain f where "map_of metrics0 ''Fees'' = Some f" "spent f = 25" "target f = 0"
    "percentage f = 0" "status f = on_track_status"
    by (auto simp: zero_target_automation_def)
  with run0 have second: "\<exists>metrics f. calculate_metrics zero_target_automation [''Fees'' \<mapsto> 25] = Inr metrics
         \<and> map_of metrics ''Fees'' = Some f \<and> spent f = 25 \<and> target f = 0
         \<and> percentage f = 0 \<and> status f = on_track_status"
    by blast
  from h first h0 second show ?thesis by (intro conjI)
qed

section \<open>Alerts\<close>

lemma alert_step_Some:
  "\<exists>db'. alert_step self today (Inr (alerts, Some db)) item
           = Inr (alerts @ alerts_of self item, Some db')"
  by (simp add: alert_step_def alerts_of_def emit_alert_def insert_alert_def Let_def)

lemma alerts_fold:
  "\<exists>db'. foldl (alert_step self today) (Inr (alerts, Some db)) metrics
           = Inr (alerts @ concat (map (alerts_of self) metrics), Some db')"
proof (induction metrics arbitrary: alerts db)
  case Nil
  then show ?case by simp
next
  case (Cons item metrics)
  obtain db1 where "alert_step self today (Inr (alerts, Some db)) item
      = Inr (alerts @ alerts_of self item, Some db1)"
    using alert_step_Some by blast
  then show ?case
    using Cons.IH [of "alerts @ alerts_of self item" db1] by simp
qed

lemma alerts_of_category: "a \<in> set (alerts_of self item) \<Longrightarrow> category a = fst item"
  by (auto simp: alerts_of_def Let_def split: if_splits)

lemma filter_alerts_other:
  "c \<notin> fst ` set metrics \<Longrightarrow> filter (\<lambda>a. category a = c) (concat (map (alerts_of self) metrics)) = []"
  by (induction metrics) (auto simp: filter_empty_conv dest: alerts_of_category)

lemma filter_alerts_own:
  "filter (\<lambda>a. category a = fst item) (alerts_of self item) = alerts_of self item"
  by (auto simp: filter_id_conv dest: alerts_of_category)

lemma filter_alerts_key:
  assumes "distinct (map fst metrics)" "item \<in> set metrics"
  shows "filter (\<lambda>a. category a = fst item) (concat (map (alerts_of self) metrics)) = alerts_of self item"
  using assms
proof (induction metrics)
  case Nil
  then show ?case by simp
next
  case (Cons x metrics)
  show ?case
  proof (cases "x = item")
    case True
    then have "fst item \<notin> fst ` set metrics" using Cons.prems by auto
    then show ?thesis
      using True by (simp add: filter_alerts_other filter_alerts_own)
  next
    case False
    then have in_rest: "item \<in> set metrics" using Cons.prems by simp
    then have "fst x \<noteq> fst item" using Cons.prems by (auto simp: image_iff)
    then have "filter (\<lambda>a. category a = fst item) (alerts_of self x) = []"
      by (auto simp: filter_empty_conv dest: alerts_of_category)
    then show ?thesis
      using Cons.IH in_rest Cons.prems by simp
  qed
qed

text \<open>
  C3. On an available store, \<open>check_spending_alerts\<close> returns at most one alert for each
  category of the metrics: a \<open>high_spending\<close> alert of severity \<open>warning\<close> exactly when the
  percentage is at least the threshold and below 100, an \<open>over_budget\<close> alert of severity
  \<open>danger\<close> exactly when the percentage is at least 100, and no alert otherwise. With the
  threshold 90, a category at 90 gets \<open>high_spending\<close> and a category at 100 gets
  \<open>over_budget\<close>; no category gets both.
\<close>

theorem check_spending_alerts_exclusive:
  assumes "distinct (map fst metrics)"
  shows "\<exists>alerts db'. check_spending_alerts self today metrics (Some db) = Inr (alerts, Some db')
    \<and> (\<forall>c. length (filter (\<lambda>a. category a = c) alerts) \<le> 1)
    \<and> (\<forall>(c, m) \<in> set metrics.
          map (\<lambda>a. (alert_type a, severity a)) (filter (\<lambda>a. category a = c) alerts) =
            (if spending_alert_threshold self \<le> percentage m \<and> percentage m < 100
             then [(''high_spending'', ''warning'')]
             else if 100 \<le> percentage m then [(''over_budget'', ''danger'')]
             else []))"
proof -
  let ?alerts = "concat (map (alerts_of self) metrics)"
  obtain db' where run: "check_spending_alerts self today metrics (Some db) = Inr (?alerts, Some db')"
    using alerts_fold [of self today "[]" db metrics] by (auto simp: check_spending_alerts_def)
  have one: "length (filter (\<lambda>a. category a = c) ?alerts) \<le> 1" for c
  proof (cases "c \<in> fst ` set metrics")
    case True
    then obtain item where "item \<in> set metrics" "c = fst item" by auto
    then have "filter (\<lambda>a. category a = c) ?alerts = alerts_of self item"
      using filter_alerts_key [OF assms] by simp
    then show ?thesis by (simp add: alerts_of_def Let_def)
  next
    case False
    then show ?thesis by (simp add: filter_alerts_other)
  qed
  have each: "map (\<lambda>a. (alert_type a, severity a)) (filter (\<lambda>a. category a = c) ?alerts) =
            (if spending_alert_threshold self \<le> percentage m \<and> percentage m < 100
             then [(''high_spending'', ''warning'')]
             else if 100 \<le> percentage m then [(''over_budget'', ''danger'')]
             else [])" if "(c, m) \<in> set metrics" for c m
    using filter_alerts_key [OF assms that, of self] by (simp add: alerts_of_def Let_def)
  from run one each show ?thesis by blast
qed

theorem check_spending_alerts_exclusive_witness:
  "distinct (map fst example_metrics)
   \<and> spending_alert_threshold default_automation = 90
   \<and> (\<exists>alerts db'.
         check_spending_alerts default_automation ''2024-01-15'' example_metrics
           (Some empty_database) = Inr (alerts, Some db')
         \<and> map (\<lambda>a. (alert_type a, severity a))
              (filter (\<lambda>a. category a = ''At threshold'') alerts)
             = [(''high_spending'', ''warning'')]
         \<and> map (\<lambda>a. (alert_type a, severity a))
              (filter (\<lambda>a. category a = ''At budget'') alerts)
             = [(''over_budget'', ''danger'')]
         \<and> filter (\<lambda>a. category a = ''Below'') alerts = [])"
proof -
  have h: "distinct (map fst example_metrics)"
    by (simp add: example_metrics_def)
  have t: "spending_alert_threshold default_automation = 90"
    by (simp add: default_automation_def setup_categories_def)
  obtain alerts db' where
    run: "check_spending_alerts default_automation ''2024-01-15'' example_metrics
           (Some empty_database) = Inr (alerts, Some db')"
    and all: "\<forall>(c, m) \<in> set example_metrics.
          map (\<lambda>a. (alert_type a, severity a)) (filter (\<lambda>a. category a = c) alerts) =
            (if spending_alert_threshold default_automation \<le> percentage m \<and> percentage m < 100
             then [(''high_spending'', ''warning'')]
             else if 100 \<le> percentage m then [(''over_budget'', ''danger'')]
             else [])"
    using check_spending_alerts_exclusive [OF h, of default_automation "''2024-01-15''" empty_database]
    by blast
  from all have each:
    "map (\<lambda>a. (alert_type a, severity a)) (filter (\<lambda>a. category a = ''At threshold'') alerts)
       = [(''high_spending'', ''warning'')]"
    "map (\<lambda>a. (alert_type a, severity a)) (filter (\<lambda>a. category a = ''At budget'') alerts)
       = [(''over_budget'', ''danger'')]"
    "filter (\<lambda>a. category a = ''Below'') alerts = []"
    by (simp_all add: example_metrics_def metric_at_def t)
  show ?thesis
    by (intro conjI exI [of _ alerts] exI [of _ db'] h t run each)
qed

section \<open>The history store\<close>

lemma distinct_map_iff_filter:
  "distinct (map f xs) \<longleftrightarrow> (\<forall>k. length (filter (\<lambda>x. f x = k) xs) \<le> 1)"
proof (induction xs)
  case Nil
  then show ?case by simp
next
  case (Cons x xs)
  have fresh: "f x \<notin> f ` set xs \<longleftrightarrow> length (filter (\<lambda>y. f y = f x) xs) = 0"
    by (simp add: filter_empty_conv image_iff) metis
  show ?case
  proof
    assume "distinct (map f (x # xs))"
    then have "length (filter (\<lambda>y. f y = f x) xs) = 0"
      and "\<forall>k. length (filter (\<lambda>x. f x = k) xs) \<le> 1"
      using fresh Cons.IH by simp_all
    then show "\<forall>k. length (filter (\<lambda>x. f x = k) (x # xs)) \<le> 1"
      by simp
  next
    assume all: "\<forall>k. length (filter (\<lambda>x. f x = k) (x # xs)) \<le> 1"
    from all [rule_format, of "f x"] have "length (filter (\<lambda>y. f y = f x) xs) = 0"
      by simp
    moreover have "length (filter (\<lambda>x. f x = k) xs) \<le> 1" for k
      using all [rule_format, of k] by (simp split: if_splits)
    ultimately show "distinct (map f (x # xs))"
      using fresh Cons.IH by simp
  qed
qed

lemma unique_key_iff: "unique_key db \<longleftrightarrow> (\<forall>d c. length (key_rows d c db) \<le> 1)"
proof -
  have "(\<lambda>r. row_date r = d \<and> row_category r = c) = (\<lambda>r. (row_date r, row_category r) = (d, c))" for d c
    by auto
  then show ?thesis
    by (simp add: unique_key_def key_rows_def distinct_map_iff_filter)
qed


lemma insert_or_replace_Some:
  "\<exists>db' r. insert_or_replace (Some db) d c a b p = Inr (Some db')
      \<and> key_rows d c db' = [r]
      \<and> row_amount r = a \<and> row_month_budget r = b \<and> row_percentage r = p
      \<and> (\<forall>d' c'. (d', c') \<noteq> (d, c) \<longrightarrow> key_rows d' c' db' = key_rows d' c' db)"
  by (auto simp: insert_or_replace_def key_rows_def Let_def filter_empty_conv intro!: filter_cong)

lemma save_fold:
  "\<exists>db'. foldl (save_row today) (Inr (Some db)) metrics = Inr (Some db')
      \<and> (\<forall>d c. d \<noteq> today \<or> c \<notin> fst ` set metrics \<longrightarrow> key_rows d c db' = key_rows d c db)
      \<and> (\<forall>c \<in> fst ` set metrics. length (key_rows today c db') = 1)
      \<and> (distinct (map fst metrics) \<longrightarrow>
           (\<forall>(c, m) \<in> set metrics. \<exists>r. key_rows today c db' = [r]
              \<and> row_amount r = spent m \<and> row_month_budget r = int_to_float (target m)
              \<and> row_percentage r = percentage m))"
proof (induction metrics arbitrary: db)
  case Nil
  then show ?case by simp
next
  case (Cons item metrics)
  obtain db1 r where step: "save_row today (Inr (Some db)) item = Inr (Some db1)"
    and r: "key_rows today (fst item) db1 = [r]" "row_amount r = spent (snd item)"
      "row_month_budget r = int_to_float (target (snd item))"
      "row_percentage r = percentage (snd item)"
    and other0: "\<forall>d' c'. (d', c') \<noteq> (today, fst item) \<longrightarrow> key_rows d' c' db1 = key_rows d' c' db"
    using insert_or_replace_Some [of db today "fst item" "spent (snd item)"
        "int_to_float (target (snd item))" "percentage (snd item)"]
    unfolding save_row_def sum.case by blast
  have other: "key_rows d' c' db1 = key_rows d' c' db" if "(d', c') \<noteq> (today, fst item)" for d' c'
    using other0 that by blast
  from Cons.IH [of db1] obtain db' where
    run: "foldl (save_row today) (Inr (Some db1)) metrics = Inr (Some db')"
    and keep0: "\<forall>d c. d \<noteq> today \<or> c \<notin> fst ` set metrics \<longrightarrow> key_rows d c db' = key_rows d c db1"
    and one0: "\<forall>c \<in> fst ` set metrics. length (key_rows today c db') = 1"
    and vals0: "distinct (map fst metrics) \<longrightarrow>
           (\<forall>(c, m) \<in> set metrics. \<exists>r. key_rows today c db' = [r]
              \<and> row_amount r = spent m \<and> row_month_budget r = int_to_float (target m)
              \<and> row_percentage r = percentage m)"
    by blast
  have keep: "key_rows d c db' = key_rows d c db1" if "d \<noteq> today \<or> c \<notin> fst ` set metrics" for d c
    using keep0 that by blast
  have one: "length (key_rows today c db') = 1" if "c \<in> fst ` set metrics" for c
    using one0 that by blast
  have vals: "\<exists>r. key_rows today c db' = [r]
              \<and> row_amount r = spent m \<and> row_month_budget r = int_to_float (target m)
              \<and> row_percentage r = percentage m"
    if "distinct (map fst metrics)" "(c, m) \<in> set metrics" for c m
    using vals0 that by blast
  have a: "foldl (save_row today) (Inr (Some db)) (item # metrics) = Inr (Some db')"
    by (simp add: step run)
  have b: "key_rows d c db' = key_rows d c db" if "d \<noteq> today \<or> c \<notin> fst ` set (item # metrics)" for d c
  proof -
    have "key_rows d c db' = key_rows d c db1" using that by (intro keep) auto
    also have "\<dots> = key_rows d c db" using that by (intro other) auto
    finally show ?thesis .
  qed
  have c: "length (key_rows today c db') = 1" if "c \<in> fst ` set (item # metrics)" for c
  proof (cases "c \<in> fst ` set metrics")
    case True
    then show ?thesis by (rule one)
  next
    case False
    with that have "c = fst item" by auto
    with False keep [of today c] r(1) show ?thesis by simp
  qed
  have d: "\<exists>r. key_rows today c db' = [r]
              \<and> row_amount r = spent m \<and> row_month_budget r = int_to_float (target m)
              \<and> row_percentage r = percentage m"
    if dist: "distinct (map fst (item # metrics))" and mem: "(c, m) \<in> set (item # metrics)" for c m
  proof (cases "(c, m) = item")
    case True
    then have "c \<notin> fst ` set metrics" using dist by force
    then have "key_rows today c db' = key_rows today c db1" by (intro keep) simp
    with r True show ?thesis by auto
  next
    case False
    with mem dist show ?thesis by (intro vals) auto
  qed
  from a b c d show ?case by blast
qed

lemma unique_key_setup: "setup_database None = Some db \<Longrightarrow> unique_key db"
  by (auto simp: setup_database_def empty_database_def unique_key_def)

lemma save_daily_data_unique:
  assumes "unique_key db"
  shows "\<exists>db'. save_daily_data today sd metrics (Some db) = Inr (Some db') \<and> unique_key db'"
proof -
  obtain db' where run: "save_daily_data today sd metrics (Some db) = Inr (Some db')"
    and keep: "\<forall>d c. d \<noteq> today \<or> c \<notin> fst ` set metrics \<longrightarrow> key_rows d c db' = key_rows d c db"
    and one: "\<forall>c \<in> fst ` set metrics. length (key_rows today c db') = 1"
    using save_fold [of today db metrics] unfolding save_daily_data_def by blast
  have "length (key_rows d c db') \<le> 1" for d c
  proof (cases "d = today \<and> c \<in> fst ` set metrics")
    case True
    with one show ?thesis by auto
  next
    case False
    with keep have "key_rows d c db' = key_rows d c db" by blast
    with assms show ?thesis by (simp add: unique_key_iff)
  qed
  with run show ?thesis by (auto simp: unique_key_iff)
qed

text \<open>
  C4. Two calls of \<open>save_daily_data\<close> with the same date on an available store, whose
  table satisfies its uniqueness constraint (as the empty table of \<open>setup_database\<close> and
  every table that \<open>save_daily_data\<close> leaves do), leave a table that satisfies it: every
  (date, category) pair has at most one row, each category of either call has exactly one
  row for that date, and the row of a category of the second call holds the spent amount,
  the target and the percentage of the second call.
\<close>

theorem save_daily_data_twice:
  assumes "unique_key db" "distinct (map fst metrics2)"
  shows "\<exists>db1 db2. save_daily_data today sd1 metrics1 (Some db) = Inr (Some db1)
     \<and> save_daily_data today sd2 metrics2 (Some db1) = Inr (Some db2)
     \<and> unique_key db2
     \<and> (\<forall>c \<in> fst ` set metrics1 \<union> fst ` set metrics2. length (key_rows today c db2) = 1)
     \<and> (\<forall>(c, m) \<in> set metrics2. \<exists>r. key_rows today c db2 = [r]
           \<and> row_amount r = spent m \<and> row_month_budget r = int_to_float (target m)
           \<and> row_percentage r = percentage m)"
proof -
  obtain db1 where run1: "save_daily_data today sd1 metrics1 (Some db) = Inr (Some db1)"
    and keep10: "\<forall>d c. d \<noteq> today \<or> c \<notin> fst ` set metrics1 \<longrightarrow> key_rows d c db1 = key_rows d c db"
    and one10: "\<forall>c \<in> fst ` set metrics1. length (key_rows today c db1) = 1"
    using save_fold [of today db metrics1] unfolding save_daily_data_def by blast
  obtain db2 where run2: "save_daily_data today sd2 metrics2 (Some db1) = Inr (Some db2)"
    and keep20: "\<forall>d c. d \<noteq> today \<or> c \<notin> fst ` set metrics2 \<longrightarrow> key_rows d c db2 = key_rows d c db1"
    and one20: "\<forall>c \<in> fst ` set metrics2. length (key_rows today c db2) = 1"
    and vals0: "distinct (map fst metrics2) \<longrightarrow>
           (\<forall>(c, m) \<in> set metrics2. \<exists>r. key_rows today c db2 = [r]
              \<and> row_amount r = spent m \<and> row_month_budget r = int_to_float (target m)
              \<and> row_percentage r = percentage m)"
    using save_fold [of today db1 metrics2] unfolding save_daily_data_def by blast
  have keep1: "key_rows d c db1 = key_rows d c db" if "d \<noteq> today \<or> c \<notin> fst ` set metrics1" for d c
    using keep10 that by blast
  have one1: "length (key_rows today c db1) = 1" if "c \<in> fst ` set metrics1" for c
    using one10 that by blast
  have keep2: "key_rows d c db2 = key_rows d c db1" if "d \<noteq> today \<or> c \<notin> fst ` set metrics2" for d c
    using keep20 that by blast
  have one2: "length (key_rows today c db2) = 1" if "c \<in> fst ` set metrics2" for c
    using one20 that by blast
  have vals: "\<forall>(c, m) \<in> set metrics2. \<exists>r. key_rows today c db2 = [r]
              \<and> row_amount r = spent m \<and> row_month_budget r = int_to_float (target m)
              \<and> row_percentage r = percentage m"
    using vals0 assms(2) by blast
  have le: "length (key_rows d c db) \<le> 1" for d c
    using assms(1) by (simp add: unique_key_iff)
  have one: "length (key_rows today c db2) = 1" if "c \<in> fst ` set metrics1 \<union> fst ` set metrics2" for c
  proof (cases "c \<in> fst ` set metrics2")
    case True
    then show ?thesis by (rule one2)
  next
    case False
    with that have "c \<in> fst ` set metrics1" by simp
    with False keep2 [of today c] one1 [of c] show ?thesis by simp
  qed
  have "length (key_rows d c db2) \<le> 1" for d c
  proof (cases "d = today \<and> c \<in> fst ` set metrics1 \<union> fst ` set metrics2")
    case True
    then show ?thesis using one [of c] by simp
  next
    case False
    then have "key_rows d c db2 = key_rows d c db1" by (intro keep2) auto
    also have "\<dots> = key_rows d c db" using False by (intro keep1) auto
    finally show ?thesis using le [of d c] by simp
  qed
  then have "unique_key db2" by (simp add: unique_key_iff)
  with run1 run2 one vals show ?thesis by blast
qed

theorem save_daily_data_twice_witness:
  "unique_key old_database
   \<and> distinct (map fst [(groceries, metric_at 950 105)])
   \<and> (\<exists>db1 db2 r.
         save_daily_data ''2024-01-15'' Map.empty [(groceries, metric_at 810 90)]
           (Some old_database) = Inr (Some db1)
         \<and> save_daily_data ''2024-01-15'' Map.empty [(groceries, metric_at 950 105)]
             (Some db1) = Inr (Some db2)
         \<and> unique_key db2
         \<and> key_rows ''2024-01-15'' groceries db2 = [r]
         \<and> row_amount r = 950 \<and> row_month_budget r = int_to_float 900
         \<and> row_percentage r = 105)"
proof -
  have u: "unique_key old_database"
    by (simp add: unique_key_def old_database_def empty_database_def)
  have h: "distinct (map fst [(groceries, metric_at 950 105)])"
    by simp
  obtain db1 db2 where
    run: "save_daily_data ''2024-01-15'' Map.empty [(groceries, metric_at 810 90)]
           (Some old_database) = Inr (Some db1)"
      "save_daily_data ''2024-01-15'' Map.empty [(groceries, metric_at 950 105)]
             (Some db1) = Inr (Some db2)"
      "unique_key db2"
    and all: "\<forall>(c, m) \<in> set [(groceries, metric_at 950 105)].
           \<exists>r. key_rows ''2024-01-15'' c db2 = [r]
           \<and> row_amount r = spent m \<and> row_month_budget r = int_to_float (target m)
           \<and> row_percentage r = percentage m"
    using save_daily_data_twice [OF u h, of "''2024-01-15''" Map.empty
        "[(groceries, metric_at 810 90)]" Map.empty]
    by blast
  from all obtain r where "key_rows ''2024-01-15'' groceries db2 = [r]"
    "row_amount r = 950" "row_month_budget r = int_to_float 900" "row_percentage r = 105"
    by (auto simp: metric_at_def)
  with u h run show ?thesis by blast
qed

lemma append_point_nonempty: "append_point data r \<noteq> []"
  by (simp add: append_point_def)

lemma foldl_append_point_empty_iff: "foldl append_point data rows = [] \<longleftrightarrow> data = [] \<and> rows = []"
proof (induction rows arbitrary: data)
  case Nil
  then show ?case by simp
next
  case (Cons r rows)
  then show ?case by (simp add: append_point_nonempty)
qed

lemma calculate_metrics_total:
  "\<exists>ms. foldl (metrics_step sd) (Inr acc) items = Inr ms"
proof (induction items arbitrary: acc)
  case Nil
  then show ?case by simp
next
  case (Cons i items)
  obtain m where "category_metric sd (fst i) (snd i) = Inr m"
    using category_metric_eq [of sd "fst i" "snd i"] by blast
  then have "metrics_step sd (Inr acc) i = Inr (AList.update (fst i) m acc)"
    by (simp add: metrics_step_def)
  then show ?case using Cons.IH by simp
qed

lemma save_row_failed: "foldl (save_row today) (Inl e) metrics = Inl e"
  by (induction metrics) (simp_all add: save_row_def)

lemma save_daily_data_None:
  "save_daily_data today sd metrics None = (if metrics = [] then Inr None else Inl OperationalError)"
  by (cases metrics) (simp_all add: save_daily_data_def save_row_def insert_or_replace_def
      save_row_failed)

lemma run_unavailable: "run self alg today cutoff_date day sd None = Inl OperationalError"
proof -
  obtain ms where "calculate_metrics self sd = Inr ms"
    using calculate_metrics_total [of sd "[]"] by (auto simp: calculate_metrics_def)
  then show ?thesis
    by (simp add: run_def save_daily_data_None get_historical_data_def)
qed

lemma get_historical_data_available:
  "\<exists>data. get_historical_data cutoff_date (Some db) = Inr data
     \<and> (data = [] \<longleftrightarrow> (\<forall>r \<in> set (daily_spending db). row_date r < cutoff_date))"
proof -
  have "sort_key f rows = [] \<longleftrightarrow> rows = []"
    for rows :: "spending_row list" and f :: "spending_row \<Rightarrow> string"
    by (metis length_0_conv length_sort)
  then show ?thesis
    by (auto simp: get_historical_data_def select_since_def foldl_append_point_empty_iff
        filter_empty_conv not_le)
qed

lemma select_since_key_order:
  "map row_id (select_since ''2024-01-01'' same_day_rows) = [3, 2, 1]"
  "map row_id (select_since ''2024-01-15'' same_day_rows) = [1]"
  by code_simp+

text \<open>
  C8 does not hold of the code. \<open>get_historical_data\<close> opens the database and runs its
  query with no check that the file exists and no exception handler, so on a store that
  is unavailable (the database file or its table is missing) the query raises
  \<open>sqlite3.OperationalError\<close>: the result is the exception, not an empty history. The
  readers of the same table in \<open>budget_api.py\<close>, \<open>serve_historical_data\<close> and
  \<open>serve_alerts\<close>, test \<open>os.path.exists\<close> and catch the exception, and answer that there
  is no data; \<open>get_historical_data\<close> does neither. On an available store the function
  returns normally (\<open>get_historical_data_available\<close>).
\<close>

theorem get_historical_data_raises:
  "get_historical_data ''2023-12-16'' None = Inl OperationalError
   \<and> get_historical_data ''2023-12-16'' None \<noteq> Inr []"
  by (simp add: get_historical_data_def)

text \<open>
  The amounts that a run stores, and those it reads back, are floats: the totals of
  \<open>process_transactions\<close> are results of float additions, and they pass unchanged through
  the metrics and the table into the history.
\<close>

lemma is_float_foldl_fadd: "is_float a \<Longrightarrow> is_float (foldl fadd a xs)"
  by (induction xs arbitrary: a) simp_all


lemma process_transactions_floats:
  "process_transactions self ts c = Some v \<Longrightarrow> is_float v"
  by (auto simp: process_transactions_eq is_float_foldl_fadd split: if_splits)

lemma set_update: "x \<in> set (AList.update k v al) \<Longrightarrow> x = (k, v) \<or> x \<in> set al"
  by (induction al) (auto split: if_splits)

lemma category_metric_floats:
  assumes "\<And>c v. sd c = Some v \<Longrightarrow> is_float v" "category_metric sd c t = Inr m"
  shows "is_float (spent m)"
proof -
  have "is_float (case sd c of None \<Rightarrow> 0 | Some s \<Rightarrow> s)"
    using assms(1) by (cases "sd c") simp_all
  then show ?thesis
    using category_metric_eq [of sd c t] assms(2) by auto
qed

lemma metrics_fold_floats:
  assumes "\<And>c v. sd c = Some v \<Longrightarrow> is_float v"
    "foldl (metrics_step sd) (Inr acc) items = Inr ms"
    "\<forall>(c, m) \<in> set acc. is_float (spent m)"
  shows "\<forall>(c, m) \<in> set ms. is_float (spent m)"
  using assms(2, 3)
proof (induction items arbitrary: acc)
  case Nil
  then show ?case by simp
next
  case (Cons i items)
  obtain m where m: "category_metric sd (fst i) (snd i) = Inr m"
    using category_metric_eq [of sd "fst i" "snd i"] by blast
  then have step: "metrics_step sd (Inr acc) i = Inr (AList.update (fst i) m acc)"
    by (simp add: metrics_step_def)
  have "is_float (spent m)" using assms(1) m by (rule category_metric_floats)
  then have "\<forall>(c, m) \<in> set (AList.update (fst i) m acc). is_float (spent m)"
    using Cons.prems(2) by (auto dest!: set_update)
  with Cons.IH [of "AList.update (fst i) m acc"] Cons.prems(1) step show ?case
    by simp
qed

lemma calculate_metrics_floats:
  assumes "\<And>c v. sd c = Some v \<Longrightarrow> is_float v" "calculate_metrics self sd = Inr ms"
  shows "\<forall>(c, m) \<in> set ms. is_float (spent m)"
  using metrics_fold_floats [where sd = sd and acc = "[]" and items = "monthly_targets self" and ms = ms]
    assms
  by (simp add: calculate_metrics_def)

lemma save_fold_floats:
  assumes "foldl (save_row today) (Inr (Some db)) metrics = Inr (Some db')"
    "float_rows db" "\<forall>(c, m) \<in> set metrics. is_float (spent m)"
  shows "float_rows db'"
  using assms
proof (induction metrics arbitrary: db)
  case Nil
  then show ?case by simp
next
  case (Cons i metrics)
  define db1 where "db1 = db \<lparr> daily_spending :=
       filter (\<lambda>r. \<not> (row_date r = today \<and> row_category r = fst i)) (daily_spending db)
       @ [\<lparr> row_id = Suc (daily_spending_seq db), row_date = today, row_category = fst i,
            row_amount = spent (snd i), row_month_budget = int_to_float (target (snd i)),
            row_percentage = percentage (snd i) \<rparr>],
     daily_spending_seq := Suc (daily_spending_seq db) \<rparr>"
  have step: "save_row today (Inr (Some db)) i = Inr (Some db1)"
    by (simp add: save_row_def insert_or_replace_def db1_def Let_def)
  have "float_rows db1"
    using Cons.prems(2, 3) by (auto simp: float_rows_def db1_def)
  with Cons.IH [of db1] Cons.prems(1, 3) step show ?case
    by simp
qed

lemma foldl_append_point_amounts:
  assumes "(c, pts) \<in> set (foldl append_point data rows)" "p \<in> set pts"
  shows "(\<exists>c' pts'. (c', pts') \<in> set data \<and> p \<in> set pts')
         \<or> (\<exists>r \<in> set rows. point_amount p = row_amount r)"
  using assms
proof (induction rows arbitrary: data)
  case Nil
  then show ?case by auto
next
  case (Cons r rows)
  from Cons.IH [OF Cons.prems(1) [simplified] Cons.prems(2)]
  consider c' pts' where "(c', pts') \<in> set (append_point data r)" "p \<in> set pts'"
    | "\<exists>r \<in> set rows. point_amount p = row_amount r"
    by blast
  then show ?case
  proof cases
    case 1
    then have "(c', pts') \<in> set data \<or> pts' = (case map_of data (row_category r) of None \<Rightarrow> [] | Some ps \<Rightarrow> ps)
        @ [\<lparr> point_date = row_date r, point_amount = row_amount r,
              point_percentage = row_percentage r \<rparr>]"
      by (auto simp: append_point_def dest!: set_update)
    with 1(2) show ?thesis
      by (auto split: option.splits dest: map_of_SomeD)
  next
    case 2
    then show ?thesis by auto
  qed
qed

lemma get_historical_data_floats:
  assumes "float_rows db" "get_historical_data cutoff_date (Some db) = Inr hist"
    "(c, pts) \<in> set hist" "p \<in> set pts"
  shows "is_float (point_amount p)"
proof -
  have hist: "hist = foldl append_point [] (select_since cutoff_date db)"
    using assms(2) by (simp add: get_historical_data_def)
  have "(c, pts) \<in> set (foldl append_point [] (select_since cutoff_date db))"
    using assms(3) by (simp only: hist)
  from foldl_append_point_amounts [OF this assms(4)]
  obtain r where r: "r \<in> set (select_since cutoff_date db)" "point_amount p = row_amount r"
    by auto
  from r(1) have "r \<in> set (daily_spending db)"
    by (simp add: select_since_def)
  with assms(1) r(2) show ?thesis
    by (simp add: float_rows_def)
qed

lemma stored_amounts_are_floats:
  assumes "float_rows db"
    and "calculate_metrics self (process_transactions self ts) = Inr ms"
    and "save_daily_data today (process_transactions self ts) ms (Some db) = Inr (Some db1)"
    and "get_historical_data cutoff_date (Some db1) = Inr hist"
    and "(c, pts) \<in> set hist" "p \<in> set pts"
  shows "is_float (point_amount p)"
proof -
  have "is_float v" if "process_transactions self ts c = Some v" for c v
    using that by (rule process_transactions_floats)
  then have "\<forall>(c, m) \<in> set ms. is_float (spent m)"
    using assms(2) by (rule calculate_metrics_floats)
  moreover have "foldl (save_row today) (Inr (Some db)) ms = Inr (Some db1)"
    using assms(3) by (simp add: save_daily_data_def)
  ultimately have "float_rows db1"
    using assms(1) save_fold_floats by blast
  then show ?thesis
    using assms(4-6) by (rule get_historical_data_floats)
qed

section \<open>Trends\<close>

lemma sum_indices: "2 * int (sum_list [0..<n]) = int n * (int n - 1)"
  by (induction n) (simp_all add: algebra_simps)

lemma sum_squares: "6 * int (sum_list (map (\<lambda>x. x * x) [0..<n])) = (int n - 1) * int n * (2 * int n - 1)"
  by (induction n) (simp_all add: algebra_simps)

lemma regression_denominator:
  "12 * (int n * int (sum_list (map (\<lambda>x. x * x) [0..<n])) - int (sum_list [0..<n]) * int (sum_list [0..<n]))
     = int n * int n * (int n - 1) * (int n + 1)"
proof -
  define a where "a = int (sum_list [0..<n])"
  define b where "b = int (sum_list (map (\<lambda>x. x * x) [0..<n]))"
  have a: "2 * a = int n * (int n - 1)" unfolding a_def by (rule sum_indices)
  have b: "6 * b = (int n - 1) * int n * (2 * int n - 1)" unfolding b_def by (rule sum_squares)
  have "12 * (int n * b - a * a) = 2 * int n * (6 * b) - 3 * ((2 * a) * (2 * a))"
    by (simp add: algebra_simps)
  also have "\<dots> = int n * int n * (int n - 1) * (int n + 1)"
    unfolding a b by (simp add: algebra_simps)
  finally show ?thesis unfolding a_def b_def .
qed

lemma regression_denominator_pos:
  assumes "2 \<le> n"
  shows "0 < int n * int (sum_list (map (\<lambda>x. x * x) [0..<n])) - int (sum_list [0..<n]) * int (sum_list [0..<n])"
proof -
  have "0 < int n * int n * (int n - 1) * (int n + 1)"
    using assms by simp
  then show ?thesis
    unfolding regression_denominator [symmetric] by simp
qed


lemma sum_list_upt_int: "int (sum_list [0..<n]) = (\<Sum>i<n. int i)"
  by (induction n) simp_all

lemma sum_list_squares_int: "int (sum_list (map (\<lambda>x. x * x) [0..<n])) = (\<Sum>i<n. int i * int i)"
  by (induction n) simp_all

lemma zip_indices: "map f (zip [0..<length ys] ys) = map (\<lambda>i. f (i, ys ! i)) [0..<length ys]"
  by (rule nth_equalityI) simp_all

lemma regression_slope_eq:
  assumes "2 \<le> length ys"
  shows "regression_slope alg ys = Inr (spec_slope alg ys)"
proof -
  have "int_to_float (int (length ys) * int (sum_list (map (\<lambda>x. x * x) [0..<length ys]))
          - int (sum_list [0..<length ys]) * int (sum_list [0..<length ys])) \<noteq> 0"
    using int_to_float_pos [OF regression_denominator_pos [OF assms]] by simp
  then show ?thesis
    by (simp add: regression_slope_def spec_slope_def Let_def truediv_def zip_indices
        flip: sum_list_upt_int sum_list_squares_int)
qed

lemma length_window: "length (window pts) = min 14 (length pts)"
  by (simp add: window_def last_n_def)

lemma last_window:
  assumes "pts \<noteq> []"
  shows "last (window pts) = point_amount (last pts)"
proof -
  have lt: "length pts - 14 < length pts" using assms by (cases pts) simp_all
  then have "drop (length pts - 14) pts \<noteq> []" by simp
  then have "last (window pts) = point_amount (last (drop (length pts - 14) pts))"
    by (simp add: window_def last_n_def last_map)
  also have "\<dots> = point_amount (last pts)"
    using lt by (simp add: last_drop)
  finally show ?thesis .
qed

lemma category_trend_short: "length pts < 7 \<Longrightarrow> category_trend alg day pts = Inr None"
  by (simp add: category_trend_def)

lemma category_trend_long:
  assumes "7 \<le> length pts"
  shows "category_trend alg day pts = Inr (Some
     \<lparr> trend = fst (trend_of_slope (spec_slope alg (window pts))),
       trend_color = snd (trend_of_slope (spec_slope alg (window pts))),
       slope = spec_slope alg (window pts),
       projected_total = fadd (point_amount (last pts))
          (max 0 (fmul (spec_slope alg (window pts)) (int_to_float (30 - int day)))),
       avg_daily = float_round (sum_list (last_n 7 (window pts)) / 7) \<rparr>)"
proof -
  have len: "7 \<le> length (window pts)" "2 \<le> length (window pts)"
    using assms by (simp_all add: length_window)
  have ne: "window pts \<noteq> []" "pts \<noteq> []" using len assms by auto
  have l7: "length (last_n 7 (window pts)) = 7" using len by (simp add: last_n_def)
  then have "last_n 7 (window pts) \<noteq> []" by auto
  then have m: "mean (last_n 7 (window pts)) = Inr (float_round (sum_list (last_n 7 (window pts)) / 7))"
    by (simp add: mean_def l7)
  show ?thesis
    using assms len ne
    by (simp add: category_trend_def Let_def regression_slope_eq m last_window flip: window_def)
qed


lemma category_trend_eq:
  "category_trend alg day pts = Inr (if length pts < 7 then None else Some (built_entry alg day pts))"
  using category_trend_short [of pts alg day] category_trend_long [of pts alg day]
  by (simp add: built_entry_def)

lemma trends_fold:
  assumes "distinct (map fst hist)"
  shows "\<exists>ts. foldl (trends_step alg day) (Inr acc) hist = Inr ts
     \<and> (\<forall>c. map_of ts c =
           (case map_of hist c of
              None \<Rightarrow> map_of acc c
            | Some pts \<Rightarrow> if length pts < 7 then map_of acc c else Some (built_entry alg day pts)))"
  using assms
proof (induction hist arbitrary: acc)
  case Nil
  then show ?case by simp
next
  case (Cons item hist)
  define acc1 where "acc1 = (if length (snd item) < 7 then acc
                             else AList.update (fst item) (built_entry alg day (snd item)) acc)"
  have step: "trends_step alg day (Inr acc) item = Inr acc1"
    by (simp add: trends_step_def category_trend_eq acc1_def)
  have "distinct (map fst hist)" using Cons.prems by simp
  from Cons.IH [OF this, of acc1] obtain ts where
    run: "foldl (trends_step alg day) (Inr acc1) hist = Inr ts"
    and ts: "\<And>c. map_of ts c =
           (case map_of hist c of
              None \<Rightarrow> map_of acc1 c
            | Some pts \<Rightarrow> if length pts < 7 then map_of acc1 c else Some (built_entry alg day pts))"
    by blast
  have fresh: "map_of hist (fst item) = None"
    using Cons.prems by (simp add: map_of_eq_None_iff)
  have "map_of ts c =
           (case map_of (item # hist) c of
              None \<Rightarrow> map_of acc c
            | Some pts \<Rightarrow> if length pts < 7 then map_of acc c else Some (built_entry alg day pts))" for c
  proof (cases "c = fst item")
    case True
    with fresh show ?thesis
      by (cases item) (simp add: ts acc1_def update_conv')
  next
    case False
    then have "map_of acc1 c = map_of acc c"
      by (simp add: acc1_def update_conv')
    with False show ?thesis
      by (cases item) (auto simp add: ts split: option.splits)
  qed
  then show ?case by (simp add: step run)
qed

lemma calculate_spending_trends_eq:
  assumes "distinct (map fst hist)"
  shows "\<exists>ts. calculate_spending_trends alg day hist = Inr ts
     \<and> (\<forall>(c, pts) \<in> set hist.
           map_of ts c = (if length pts < 7 then None else Some (built_entry alg day pts)))"
proof -
  obtain ts where run: "calculate_spending_trends alg day hist = Inr ts"
    and ts0: "\<forall>c. map_of ts c =
           (case map_of hist c of
              None \<Rightarrow> map_of [] c
            | Some pts \<Rightarrow> if length pts < 7 then map_of [] c else Some (built_entry alg day pts))"
    using trends_fold [OF assms, of alg day "[]"] unfolding calculate_spending_trends_def by blast
  have ts: "map_of ts c =
           (case map_of hist c of
              None \<Rightarrow> None
            | Some pts \<Rightarrow> if length pts < 7 then None else Some (built_entry alg day pts))" for c
    using ts0 by (simp split: option.splits)
  have "map_of ts c = (if length pts < 7 then None else Some (built_entry alg day pts))"
    if "(c, pts) \<in> set hist" for c pts
    using that assms by (simp add: ts)
  with run show ?thesis by blast
qed


lemma last_seven:
  assumes "7 \<le> length pts"
  shows "last_n 7 (window pts) = map point_amount (drop (length pts - 7) pts)"
proof -
  have "length pts - (length pts - 14) - 7 + (length pts - 14) = length pts - 7"
    using assms by simp
  then show ?thesis
    by (simp add: last_n_def window_def drop_map)
qed

lemma upt_7: "[0..<7] = [0, 1, 2, 3, 4, 5, 6]"
  by code_simp

lemma upt_14: "[0..<14] = [0, 1, 2, 3, 4, 5, 6, 7, 8, 9, 10, 11, 12, 13]"
  by code_simp

lemmas float_eval = spec_slope_def py_sum_def Let_def fadd_def fsub_def fmul_def fdiv_def
  int_to_float_exact float_round_numeral upt_7 upt_14 sum_list_upt_int [symmetric]
  sum_list_squares_int [symmetric]

lemma example_slope:
  "spec_slope alg [100, 100, 100, 100, 100, 100, 200] = 6031606643799771 / 562949953421312"
  "5 < (6031606643799771 / 562949953421312 :: rat)"
proof -
  have "spec_slope alg [100, 100, 100, 100, 100, 100, 200] = float_round (75 / 7)"
    by (cases alg) (simp_all add: float_eval)
  also have "float_round (75 / 7) = 6031606643799771 / 562949953421312"
    by code_simp
  finally show "spec_slope alg [100, 100, 100, 100, 100, 100, 200]
      = 6031606643799771 / 562949953421312" .
  show "5 < (6031606643799771 / 562949953421312 :: rat)"
    by simp
qed

lemma example_slope_falling:
  "spec_slope alg [200, 100, 100, 100, 100, 100, 100] = float_round (- (75 / 7))"
  "float_round (- (75 / 7)) \<le> 0"
proof -
  show "spec_slope alg [200, 100, 100, 100, 100, 100, 100] = float_round (- (75 / 7))"
    by (cases alg) (simp_all add: float_eval)
  have "float_round (- (75 / 7)) \<le> float_round 0"
    by (rule float_round_mono) simp
  then show "float_round (- (75 / 7)) \<le> 0"
    by simp
qed

lemma example_slope_long:
  "spec_slope alg [10, 20, 30, 40, 50, 60, 70, 80, 90, 100, 110, 120, 130, 140] = 10"
  by (cases alg) (simp_all add: float_eval)

lemma example_entries:
  "\<exists>trends. calculate_spending_trends alg 15 example_history = Inr trends
     \<and> map_of trends ''Rising'' = Some (built_entry alg 15 rising_points)
     \<and> map_of trends ''Falling'' = Some (built_entry alg 15 falling_points)
     \<and> map_of trends ''Long'' = Some (built_entry alg 15 long_points)"
proof -
  have "distinct (map fst example_history)"
    by (simp add: example_history_def)
  from calculate_spending_trends_eq [OF this, of alg 15] show ?thesis
    by (auto simp: example_history_def rising_points_def falling_points_def short_points_def
        long_points_def)
qed

lemmas example_points = example_history_def rising_points_def falling_points_def
  short_points_def long_points_def pt_def

lemma example_windows:
  "window rising_points = [100, 100, 100, 100, 100, 100, 200]"
  "window falling_points = [200, 100, 100, 100, 100, 100, 100]"
  "window long_points = [10, 20, 30, 40, 50, 60, 70, 80, 90, 100, 110, 120, 130, 140]"
  by (simp_all add: rising_points_def falling_points_def long_points_def pt_def window_def
      last_n_def)

text \<open>
  C5. \<open>calculate_spending_trends\<close> never raises. It has no entry for a category with fewer
  than 7 points. For a category with at least 7 points it has an entry whose slope is the
  least-squares slope \<open>(n\<cdot>\<Sigma>xy - \<Sigma>x\<cdot>\<Sigma>y) / (n\<cdot>\<Sigma>x\<^sup>2 - (\<Sigma>x)\<^sup>2)\<close>, in float arithmetic, of
  the amounts of the points that remain when all but the last 14 are dropped, in their
  order, against the indices \<open>0..n-1\<close>, labelled increasing above 5 and decreasing below
  -5. This holds for either algorithm of \<open>sum\<close>. For the 7 amounts
  100, 100, 100, 100, 100, 100, 200 the slope is greater than 5 and the label is increasing.
\<close>

theorem calculate_spending_trends_slope:
  assumes "distinct (map fst hist)"
  shows "\<exists>trends. calculate_spending_trends alg day hist = Inr trends
     \<and> (\<forall>(c, pts) \<in> set hist.
           (length pts < 7 \<longrightarrow> map_of trends c = None)
           \<and> (7 \<le> length pts \<longrightarrow>
                (\<exists>e. map_of trends c = Some e
                   \<and> slope e = spec_slope alg (map point_amount (drop (length pts - 14) pts))
                   \<and> trend e = (if slope e > 5 then increasing
                                else if slope e < - 5 then decreasing else stable)))
           \<and> (map point_amount pts = [100, 100, 100, 100, 100, 100, 200] \<longrightarrow>
                (\<exists>e. map_of trends c = Some e \<and> 5 < slope e \<and> trend e = increasing)))"
proof -
  obtain ts where run: "calculate_spending_trends alg day hist = Inr ts"
    and ts: "\<forall>(c, pts) \<in> set hist.
           map_of ts c = (if length pts < 7 then None else Some (built_entry alg day pts))"
    using calculate_spending_trends_eq [OF assms] by blast
  have "(length pts < 7 \<longrightarrow> map_of ts c = None)
           \<and> (7 \<le> length pts \<longrightarrow>
                (\<exists>e. map_of ts c = Some e
                   \<and> slope e = spec_slope alg (map point_amount (drop (length pts - 14) pts))
                   \<and> trend e = (if slope e > 5 then increasing
                                else if slope e < - 5 then decreasing else stable)))
           \<and> (map point_amount pts = [100, 100, 100, 100, 100, 100, 200] \<longrightarrow>
                (\<exists>e. map_of ts c = Some e \<and> 5 < slope e \<and> trend e = increasing))"
    if mem: "(c, pts) \<in> set hist" for c pts
  proof -
    from ts mem have m: "map_of ts c = (if length pts < 7 then None else Some (built_entry alg day pts))"
      by auto
    have general: "slope (built_entry alg day pts)
          = spec_slope alg (map point_amount (drop (length pts - 14) pts))"
      "trend (built_entry alg day pts) = (if slope (built_entry alg day pts) > 5 then increasing
          else if slope (built_entry alg day pts) < - 5 then decreasing else stable)"
      by (simp_all add: built_entry_def trend_of_slope_def window_def last_n_def)
    have example: "5 < slope (built_entry alg day pts) \<and> trend (built_entry alg day pts) = increasing
        \<and> length pts = 7"
      if ex: "map point_amount pts = [100, 100, 100, 100, 100, 100, 200]"
    proof -
      have "length (map point_amount pts) = 7" unfolding ex by simp
      then have len: "length pts = 7" by simp
      then have "map point_amount (drop (length pts - 14) pts) = [100, 100, 100, 100, 100, 100, 200]"
        by (simp add: ex)
      then show ?thesis
        using example_slope(1) [of alg] example_slope(2) len by (simp add: general)
    qed
    show ?thesis
      using m general example by auto
  qed
  then have "\<forall>(c, pts) \<in> set hist.
           (length pts < 7 \<longrightarrow> map_of ts c = None)
           \<and> (7 \<le> length pts \<longrightarrow>
                (\<exists>e. map_of ts c = Some e
                   \<and> slope e = spec_slope alg (map point_amount (drop (length pts - 14) pts))
                   \<and> trend e = (if slope e > 5 then increasing
                                else if slope e < - 5 then decreasing else stable)))
           \<and> (map point_amount pts = [100, 100, 100, 100, 100, 100, 200] \<longrightarrow>
                (\<exists>e. map_of ts c = Some e \<and> 5 < slope e \<and> trend e = increasing))"
    by (intro ballI) (simp only: split_paired_all prod.case)
  with run show ?thesis by (intro exI [of _ ts] conjI)
qed

theorem calculate_spending_trends_slope_witness:
  "distinct (map fst example_history)
   \<and> (\<exists>trends up long.
         calculate_spending_trends Sequential 15 example_history = Inr trends
         \<and> map_of trends ''Short'' = None
         \<and> map_of trends ''Rising'' = Some up
         \<and> slope up = 6031606643799771 / 562949953421312
         \<and> 5 < slope up \<and> trend up = increasing
         \<and> map_of trends ''Long'' = Some long
         \<and> slope long = 10 \<and> trend long = increasing)
   \<and> (\<exists>trends up long.
         calculate_spending_trends Compensated 15 example_history = Inr trends
         \<and> map_of trends ''Short'' = None
         \<and> map_of trends ''Rising'' = Some up
         \<and> slope up = 6031606643799771 / 562949953421312
         \<and> 5 < slope up \<and> trend up = increasing
         \<and> map_of trends ''Long'' = Some long
         \<and> slope long = 10 \<and> trend long = increasing)"
proof -
  have h: "distinct (map fst example_history)"
    by (simp add: example_history_def)
  have w: "\<exists>trends up long.
         calculate_spending_trends alg 15 example_history = Inr trends
         \<and> map_of trends ''Short'' = None
         \<and> map_of trends ''Rising'' = Some up
         \<and> slope up = 6031606643799771 / 562949953421312
         \<and> 5 < slope up \<and> trend up = increasing
         \<and> map_of trends ''Long'' = Some long
         \<and> slope long = 10 \<and> trend long = increasing" for alg
  proof -
    obtain trends where run: "calculate_spending_trends alg 15 example_history = Inr trends"
      and all: "\<forall>(c, pts) \<in> set example_history.
           (length pts < 7 \<longrightarrow> map_of trends c = None)
           \<and> (7 \<le> length pts \<longrightarrow>
                (\<exists>e. map_of trends c = Some e
                   \<and> slope e = spec_slope alg (map point_amount (drop (length pts - 14) pts))
                   \<and> trend e = (if slope e > 5 then increasing
                                else if slope e < - 5 then decreasing else stable)))
           \<and> (map point_amount pts = [100, 100, 100, 100, 100, 100, 200] \<longrightarrow>
                (\<exists>e. map_of trends c = Some e \<and> 5 < slope e \<and> trend e = increasing))"
      using calculate_spending_trends_slope [OF h, of alg 15] by blast
    have short: "map_of trends ''Short'' = None"
      using all by (simp add: example_points)
    have "\<exists>e. map_of trends ''Rising'' = Some e
        \<and> slope e = spec_slope alg [100, 100, 100, 100, 100, 100, 200]
        \<and> trend e = (if slope e > 5 then increasing
                     else if slope e < - 5 then decreasing else stable)"
      using all by (simp add: example_points)
    then obtain up where up: "map_of trends ''Rising'' = Some up"
      "slope up = 6031606643799771 / 562949953421312" "5 < slope up" "trend up = increasing"
      using example_slope(1) [of alg] example_slope(2) by auto
    have "\<exists>e. map_of trends ''Long'' = Some e
        \<and> slope e = spec_slope alg [10, 20, 30, 40, 50, 60, 70, 80, 90, 100, 110, 120, 130, 140]
        \<and> trend e = (if slope e > 5 then increasing
                     else if slope e < - 5 then decreasing else stable)"
      using all by (simp add: example_points)
    then obtain long where long: "map_of trends ''Long'' = Some long"
      "slope long = 10" "trend long = increasing"
      using example_slope_long [of alg] by auto
    show ?thesis
      by (intro exI [of _ trends] exI [of _ up] exI [of _ long] conjI run short up long)
  qed
  from h w [of Sequential] w [of Compensated] show ?thesis
    by (intro conjI)
qed

text \<open>
  C6. For every category with a trend entry, the projected total is
  \<open>last + max(0, slope \<cdot> (30 - day))\<close> in float arithmetic, where \<open>last\<close> is the amount of
  the most recent point and \<open>day\<close> the current day of the month. When \<open>last\<close> is a float, as
  every amount that a run reads from the store is, the projection is at least \<open>last\<close>, and it is \<open>last\<close>
  whenever \<open>slope \<cdot> (30 - day) \<le> 0\<close>: a falling trend never projects below the last
  observed amount.
\<close>

theorem projected_total_floor:
  assumes "distinct (map fst hist)"
  shows "\<exists>trends. calculate_spending_trends alg day hist = Inr trends
     \<and> (\<forall>(c, pts) \<in> set hist. \<forall>e. map_of trends c = Some e \<longrightarrow>
           projected_total e = fadd (point_amount (last pts))
                                 (max 0 (fmul (slope e) (int_to_float (30 - int day))))
           \<and> (is_float (point_amount (last pts)) \<longrightarrow>
                point_amount (last pts) \<le> projected_total e
                \<and> (slope e * of_int (30 - int day) \<le> 0 \<longrightarrow>
                     projected_total e = point_amount (last pts))))"
proof -
  obtain ts where run: "calculate_spending_trends alg day hist = Inr ts"
    and ts: "\<forall>(c, pts) \<in> set hist.
           map_of ts c = (if length pts < 7 then None else Some (built_entry alg day pts))"
    using calculate_spending_trends_eq [OF assms] by blast
  have "projected_total e = fadd (point_amount (last pts))
                                 (max 0 (fmul (slope e) (int_to_float (30 - int day))))
           \<and> (is_float (point_amount (last pts)) \<longrightarrow>
                point_amount (last pts) \<le> projected_total e
                \<and> (slope e * of_int (30 - int day) \<le> 0 \<longrightarrow>
                     projected_total e = point_amount (last pts)))"
    if "(c, pts) \<in> set hist" "map_of ts c = Some e" for c pts e
  proof -
    from ts that have e: "e = built_entry alg day pts"
      by (auto split: if_splits)
    have p: "projected_total e = fadd (point_amount (last pts))
                                 (max 0 (fmul (slope e) (int_to_float (30 - int day))))"
      by (simp add: e built_entry_def)
    show ?thesis
      unfolding p using projected_floor fmul_int_nonpos by blast
  qed
  with run show ?thesis by blast
qed

theorem projected_total_floor_witness:
  "distinct (map fst example_history)
   \<and> (\<exists>trends up down long.
         calculate_spending_trends Sequential 15 example_history = Inr trends
         \<and> map_of trends ''Rising'' = Some up
         \<and> is_float 200 \<and> 200 \<le> projected_total up
         \<and> map_of trends ''Falling'' = Some down
         \<and> is_float 100 \<and> slope down * 15 \<le> 0 \<and> projected_total down = 100
         \<and> map_of trends ''Long'' = Some long
         \<and> slope long = 10 \<and> projected_total long = 290)
   \<and> (\<exists>trends up down long.
         calculate_spending_trends Compensated 15 example_history = Inr trends
         \<and> map_of trends ''Rising'' = Some up
         \<and> is_float 200 \<and> 200 \<le> projected_total up
         \<and> map_of trends ''Falling'' = Some down
         \<and> is_float 100 \<and> slope down * 15 \<le> 0 \<and> projected_total down = 100
         \<and> map_of trends ''Long'' = Some long
         \<and> slope long = 10 \<and> projected_total long = 290)"
proof -
  have h: "distinct (map fst example_history)"
    by (simp add: example_history_def)
  have f: "is_float 200" "is_float 100"
    by (simp_all add: is_float_def float_round_numeral)
  have w: "\<exists>trends up down long.
         calculate_spending_trends alg 15 example_history = Inr trends
         \<and> map_of trends ''Rising'' = Some up
         \<and> is_float 200 \<and> 200 \<le> projected_total up
         \<and> map_of trends ''Falling'' = Some down
         \<and> is_float 100 \<and> slope down * 15 \<le> 0 \<and> projected_total down = 100
         \<and> map_of trends ''Long'' = Some long
         \<and> slope long = 10 \<and> projected_total long = 290" for alg
  proof -
    obtain trends where run: "calculate_spending_trends alg 15 example_history = Inr trends"
      and all: "\<forall>(c, pts) \<in> set example_history. \<forall>e. map_of trends c = Some e \<longrightarrow>
           projected_total e = fadd (point_amount (last pts))
                                 (max 0 (fmul (slope e) (int_to_float (30 - int 15))))
           \<and> (is_float (point_amount (last pts)) \<longrightarrow>
                point_amount (last pts) \<le> projected_total e
                \<and> (slope e * of_int (30 - int 15) \<le> 0 \<longrightarrow>
                     projected_total e = point_amount (last pts)))"
      using projected_total_floor [OF h, of alg 15] by blast
    define up where "up = built_entry alg 15 rising_points"
    define down where "down = built_entry alg 15 falling_points"
    define long where "long = built_entry alg 15 long_points"
    have e: "map_of trends ''Rising'' = Some up" "map_of trends ''Falling'' = Some down"
      "map_of trends ''Long'' = Some long"
      using example_entries [of alg] run by (auto simp: up_def down_def long_def)
    have "slope down = float_round (- (75 / 7))"
      by (simp add: down_def built_entry_def example_windows example_slope_falling)
    then have s: "slope down * 15 \<le> 0"
      using example_slope_falling(2) by (simp add: mult_le_0_iff)
    have l: "slope long = 10"
      by (simp add: long_def built_entry_def example_windows example_slope_long)
    from all e(1) f have u: "200 \<le> projected_total up"
      by (simp add: example_points)
    from all e(2) f s have d: "projected_total down = 100"
      by (simp add: example_points)
    from all e(3) have "projected_total long
        = fadd 140 (max 0 (fmul (slope long) (int_to_float (30 - int 15))))"
      by (simp add: example_points)
    then have p: "projected_total long = 290"
      by (simp add: l fadd_def fmul_def int_to_float_exact float_round_numeral)
    show ?thesis
      by (intro conjI exI [of _ trends] exI [of _ up] exI [of _ down] exI [of _ long]
          run e f s u d l p)
  qed
  from h w [of Sequential] w [of Compensated] show ?thesis
    by (intro conjI)
qed

text \<open>
  C10. Whenever \<open>calculate_spending_trends\<close> has an entry for a category, the window of
  its most recent 14 points holds at least 7 amounts, so \<open>avg_daily\<close> is the value of
  \<open>statistics.mean\<close> on the last 7 amounts of the window, their arithmetic mean as a
  float; the fall-back 0 for fewer than 7 amounts is never taken. The last 7 amounts of
  the window are the amounts of the points that remain when all but the last 7 points of
  the category are dropped.
\<close>

theorem avg_daily_is_mean:
  assumes "distinct (map fst hist)"
  shows "\<exists>trends. calculate_spending_trends alg day hist = Inr trends
     \<and> (\<forall>(c, pts) \<in> set hist. \<forall>e. map_of trends c = Some e \<longrightarrow>
           7 \<le> length (window pts)
           \<and> mean (last_n 7 (window pts)) = Inr (avg_daily e)
           \<and> avg_daily e = float_round (sum_list (last_n 7 (window pts)) / 7)
           \<and> 7 \<le> length pts
           \<and> avg_daily e
               = float_round (sum_list (map point_amount (drop (length pts - 7) pts)) / 7))"
proof -
  obtain ts where run: "calculate_spending_trends alg day hist = Inr ts"
    and ts: "\<forall>(c, pts) \<in> set hist.
           map_of ts c = (if length pts < 7 then None else Some (built_entry alg day pts))"
    using calculate_spending_trends_eq [OF assms] by blast
  have "7 \<le> length (window pts)
           \<and> mean (last_n 7 (window pts)) = Inr (avg_daily e)
           \<and> avg_daily e = float_round (sum_list (last_n 7 (window pts)) / 7)
           \<and> 7 \<le> length pts
           \<and> avg_daily e
               = float_round (sum_list (map point_amount (drop (length pts - 7) pts)) / 7)"
    if "(c, pts) \<in> set hist" "map_of ts c = Some e" for c pts e
  proof -
    from ts that have e: "e = built_entry alg day pts" and len: "7 \<le> length pts"
      by (auto split: if_splits)
    have w: "7 \<le> length (window pts)" using len by (simp add: length_window)
    then have l7: "length (last_n 7 (window pts)) = 7" by (simp add: last_n_def)
    then have "last_n 7 (window pts) \<noteq> []" by auto
    then have "7 \<le> length (window pts)
           \<and> mean (last_n 7 (window pts)) = Inr (avg_daily e)
           \<and> avg_daily e = float_round (sum_list (last_n 7 (window pts)) / 7)"
      using w by (simp add: e built_entry_def mean_def l7)
    then show ?thesis
      using len by (simp add: last_seven)
  qed
  with run show ?thesis by blast
qed

theorem avg_daily_is_mean_witness:
  "distinct (map fst example_history)
   \<and> (\<exists>trends up long.
         calculate_spending_trends Sequential 15 example_history = Inr trends
         \<and> map_of trends ''Rising'' = Some up
         \<and> avg_daily up = float_round (800 / 7)
         \<and> map_of trends ''Long'' = Some long
         \<and> avg_daily long = 110)
   \<and> (\<exists>trends up long.
         calculate_spending_trends Compensated 15 example_history = Inr trends
         \<and> map_of trends ''Rising'' = Some up
         \<and> avg_daily up = float_round (800 / 7)
         \<and> map_of trends ''Long'' = Some long
         \<and> avg_daily long = 110)"
proof -
  have h: "distinct (map fst example_history)"
    by (simp add: example_history_def)
  have w: "\<exists>trends up long.
         calculate_spending_trends alg 15 example_history = Inr trends
         \<and> map_of trends ''Rising'' = Some up
         \<and> avg_daily up = float_round (800 / 7)
         \<and> map_of trends ''Long'' = Some long
         \<and> avg_daily long = 110" for alg
  proof -
    obtain trends where run: "calculate_spending_trends alg 15 example_history = Inr trends"
      and all: "\<forall>(c, pts) \<in> set example_history. \<forall>e. map_of trends c = Some e \<longrightarrow>
           7 \<le> length (window pts)
           \<and> mean (last_n 7 (window pts)) = Inr (avg_daily e)
           \<and> avg_daily e = float_round (sum_list (last_n 7 (window pts)) / 7)
           \<and> 7 \<le> length pts
           \<and> avg_daily e
               = float_round (sum_list (map point_amount (drop (length pts - 7) pts)) / 7)"
      using avg_daily_is_mean [OF h, of alg 15] by blast
    from run obtain up long where e: "map_of trends ''Rising'' = Some up"
      "map_of trends ''Long'' = Some long"
      using example_entries [of alg] by auto
    from all e(1) have u: "avg_daily up = float_round (800 / 7)"
      by (simp add: example_points)
    from all e(2) have "avg_daily long = float_round (770 / 7)"
      by (simp add: example_points)
    then have l: "avg_daily long = 110"
      by (simp add: float_round_numeral)
    show ?thesis
      by (intro conjI exI [of _ trends] exI [of _ up] exI [of _ long] run e u l)
  qed
  from h w [of Sequential] w [of Compensated] show ?thesis
    by (intro conjI)
qed

end
